theory Spec2Isabelle
  imports Main
begin

text \<open>
  A model of the key rotation service: the parser and the reconciliation pass of the env
  watcher, the health checker with its editing of the env file, and the routes
  \<open>GET /key/available\<close> and \<open>DELETE /keys/:id\<close>. Each definition follows the source
  function of its name. The world outside a function is a parameter of it: the built-in
  \<open>JSON.parse\<close> and \<open>JSON.stringify\<close>, the file system, the upstream service, and the
  module \<open>keyManager\<close>, whose source is not part of this development.
\<close>

section \<open>JavaScript strings\<close>

text \<open>
  A JavaScript string is modelled as a \<open>string\<close> whose characters are code units below
  256. \<open>is_space\<close> is the \<open>\s\<close> class of a regular expression, which is also what
  \<open>String.prototype.trim\<close> strips: tab, line feed, vertical tab, form feed, carriage
  return, space and no-break space (the members of the class among these code units).
\<close>

definition is_space :: "char \<Rightarrow> bool" where
  "is_space c = (c \<in> set [CHR 0x09, CHR 0x0A, CHR 0x0B, CHR 0x0C, CHR 0x0D, CHR 0x20, CHR 0xA0])"

definition trim :: "string \<Rightarrow> string" where
  "trim s = rev (dropWhile is_space (rev (dropWhile is_space s)))"

text \<open>
  \<open>s.split(c)\<close> for a one-character separator: the pieces between the separators, always
  at least one piece.
\<close>

fun split :: "char \<Rightarrow> string \<Rightarrow> string list" where
  "split c [] = [[]]"
| "split c (x # xs) =
     (let r = split c xs in if x = c then [] # r else (x # hd r) # tl r)"

text \<open>\<open>parts.join(sep)\<close>.\<close>

fun join :: "string \<Rightarrow> string list \<Rightarrow> string" where
  "join sep [] = []"
| "join sep [x] = x"
| "join sep (x # y # ys) = x @ sep @ join sep (y # ys)"

text \<open>
  \<open>toLowerCase\<close> on the letters A to Z. The source only ever compares a lowered string
  with \<open>'pro'\<close>, and no other code unit lowers to one of p, r, o.
\<close>

definition lower_char :: "char \<Rightarrow> char" where
  "lower_char c =
     (let n = (of_char c :: nat) in if 65 \<le> n \<and> n \<le> 90 then char_of (n + 32) else c)"

definition toLowerCase :: "string \<Rightarrow> string" where
  "toLowerCase s = map lower_char s"

section \<open>JavaScript values read from JSON\<close>

text \<open>
  What \<open>JSON.parse\<close> returns. A number is held as its \<open>String(n)\<close> rendering, so that
  \<open>js_String\<close> needs no floating point; the number zero renders as \<open>0\<close>. An object is
  the list of its properties, each name once.
\<close>

datatype json =
    JNull
  | JBool bool
  | JNum string
  | JStr string
  | JArr "json list"
  | JObj "(string \<times> json) list"

text \<open>Truthiness, as \<open>||\<close> and \<open>if\<close> test it.\<close>

fun truthy :: "json \<Rightarrow> bool" where
  "truthy JNull = False"
| "truthy (JBool b) = b"
| "truthy (JNum s) = (s \<noteq> ''0'')"
| "truthy (JStr s) = (s \<noteq> [])"
| "truthy (JArr xs) = True"
| "truthy (JObj kvs) = True"

text \<open>
  \<open>String(v)\<close>, \<open>None\<close> when it throws a \<open>TypeError\<close>. An object without a property
  of its own named \<open>toString\<close> renders through \<open>Object.prototype.toString\<close>; with one,
  which a value read from JSON cannot make callable, neither \<open>toString\<close> nor \<open>valueOf\<close>
  gives a primitive and the conversion throws. An array renders as its elements joined by
  commas, \<open>null\<close> elements as the empty string, and throws when an element does.
\<close>

fun js_String :: "json \<Rightarrow> string option" where
  "js_String JNull = Some ''null''"
| "js_String (JBool b) = Some (if b then ''true'' else ''false'')"
| "js_String (JNum s) = Some s"
| "js_String (JStr s) = Some s"
| "js_String (JArr xs) =
     map_option (join '','') (those (map (\<lambda>x. if x = JNull then Some [] else js_String x) xs))"
| "js_String (JObj kvs) =
     (if map_of kvs ''toString'' \<noteq> None then None else Some ''[object Object]'')"

text \<open>
  \<open>v?.name\<close> for the names \<open>id\<close>, \<open>plan\<close> and \<open>code\<close>: \<open>None\<close> is \<open>undefined\<close>, which
  is what \<open>null\<close>, a primitive and an array give for these names.
\<close>

fun get_prop :: "json \<Rightarrow> string \<Rightarrow> json option" where
  "get_prop (JObj kvs) name = map_of kvs name"
| "get_prop v name = None"

text \<open>\<open>v || d\<close> where \<open>v\<close> may be \<open>undefined\<close>.\<close>

fun js_or :: "json option \<Rightarrow> json \<Rightarrow> json" where
  "js_or None d = d"
| "js_or (Some v) d = (if truthy v then v else d)"

text \<open>\<open>s || d\<close> for an environment variable, a string or \<open>undefined\<close>.\<close>

fun str_or :: "string option \<Rightarrow> string \<Rightarrow> string" where
  "str_or None d = d"
| "str_or (Some s) d = (if s \<noteq> [] then s else d)"

section \<open>The reconciler's parser: \<open>parseKeysFromEnv\<close>\<close>

text \<open>A desired key \<open>{id, plan}\<close> is the pair of its two fields.\<close>

type_synonym desired_key = "string \<times> string"

text \<open>
  \<open>normalizePlan = (plan) => (String(plan || '').toLowerCase() === 'pro' ? 'pro' : 'ultimate')\<close>
  The source applies it to strings and to values read from JSON. On a string,
  \<open>String(plan || '')\<close> is the string itself, and this is \<open>normalizePlan\<close>; on a value
  read from JSON the conversion may throw, and this is \<open>normalizePlan_value\<close>, \<open>None\<close> when
  it does.
\<close>

definition normalizePlan :: "string \<Rightarrow> string" where
  "normalizePlan pln = (if toLowerCase pln = ''pro'' then ''pro'' else ''ultimate'')"

definition normalizePlan_value :: "json \<Rightarrow> string option" where
  "normalizePlan_value pln = map_option normalizePlan (js_String (js_or (Some pln) (JStr [])))"

text \<open>
  The loop over the parsed JSON array (source lines 240 to 244). It runs inside the
  \<open>try\<close> of lines 237 to 248: when \<open>String\<close> throws on the id or on the plan of an entry,
  the \<open>catch\<close> ends the loop, and \<open>jsonKeys\<close> holds the keys pushed before. The plan is
  converted before the key is pushed, so the entry that throws is not among them.
\<close>

fun jsonKeys_loop :: "string \<Rightarrow> json list \<Rightarrow> desired_key list" where
  "jsonKeys_loop defaultPlan [] = []"
| "jsonKeys_loop defaultPlan (entry # rest) =
     (case js_String (js_or (get_prop entry ''id'') (JStr [])) of
        None \<Rightarrow> []
      | Some s \<Rightarrow>
          (let ident = trim s
           in if ident = [] then jsonKeys_loop defaultPlan rest
              else
                (case normalizePlan_value (js_or (get_prop entry ''plan'') (JStr defaultPlan)) of
                   None \<Rightarrow> []
                 | Some pln \<Rightarrow> (ident, pln) # jsonKeys_loop defaultPlan rest)))"

text \<open>
  The loop over the \<open>id:plan\<close> pairs (source lines 258 to 263):
  \<open>const [idPart, planPart] = entry.split(':')\<close> takes the first two pieces, and
  \<open>planPart\<close> is \<open>undefined\<close> when there is no colon.
\<close>

fun csvKeys_loop :: "string \<Rightarrow> string list \<Rightarrow> desired_key list" where
  "csvKeys_loop defaultPlan [] = []"
| "csvKeys_loop defaultPlan (entry # rest) =
     (let pieces = split CHR '':'' entry;
          idPart = hd pieces;
          planPart = (case tl pieces of [] \<Rightarrow> None | p # _ \<Rightarrow> Some p);
          ident = trim (str_or (Some idPart) [])
      in if ident = [] then csvKeys_loop defaultPlan rest
         else (ident, normalizePlan (str_or planPart defaultPlan))
              # csvKeys_loop defaultPlan rest)"

text \<open>\<open>raw.split(',').map((p) => p.trim()).filter(Boolean)\<close>\<close>

definition split_entries :: "string \<Rightarrow> string list" where
  "split_entries raw = filter (\<lambda>p. p \<noteq> []) (map trim (split CHR '','' raw))"

text \<open>
  \<open>parseKeysFromEnv(envVars, envDir)\<close>. \<open>envVars\<close> is what \<open>dotenv.parse\<close> returned, or
  \<open>None\<close> for \<open>null\<close>. \<open>JSON_parse\<close> is the built-in parser (\<open>None\<close> when it throws) and
  \<open>readFileSync envDir jsonPath\<close> the content of the file the path resolves to
  (\<open>None\<close> when reading throws); both failures are caught and logged by the source.
\<close>

definition parseKeysFromEnv ::
  "(string \<Rightarrow> json option) \<Rightarrow> (string \<Rightarrow> string \<Rightarrow> string option) \<Rightarrow>
   (string \<rightharpoonup> string) option \<Rightarrow> string \<Rightarrow> desired_key list" where
  "parseKeysFromEnv JSON_parse readFileSync envVars envDir =
     (case envVars of
        None \<Rightarrow> []
      | Some ev \<Rightarrow>
          (let defaultPlan = toLowerCase (str_or (ev ''MAILTESTER_DEFAULT_PLAN'') ''ultimate'');
               rawJson0 = str_or (ev ''MAILTESTER_KEYS_JSON'') [];
               jsonPath = str_or (ev ''MAILTESTER_KEYS_JSON_PATH'') [];
               rawJson =
                 (if rawJson0 = [] \<and> jsonPath \<noteq> [] then
                    (case readFileSync envDir jsonPath of Some c \<Rightarrow> c | None \<Rightarrow> rawJson0)
                  else rawJson0);
               jsonKeys =
                 (if trim rawJson \<noteq> [] then
                    (case JSON_parse rawJson of
                       Some (JArr parsed) \<Rightarrow> jsonKeys_loop defaultPlan parsed
                     | _ \<Rightarrow> [])
                  else [])
           in if jsonKeys \<noteq> [] then jsonKeys
              else
                (let csvRaw = str_or (ev ''MAILTESTER_KEYS_WITH_PLAN'') [];
                     csvKeys =
                       (if trim csvRaw \<noteq> [] then csvKeys_loop defaultPlan (split_entries csvRaw)
                        else [])
                 in if csvKeys \<noteq> [] then csvKeys
                    else
                      (let listRaw = str_or (ev ''MAILTESTER_KEYS'') []
                       in if trim listRaw \<noteq> [] then
                            map (\<lambda>ident. (ident, normalizePlan defaultPlan))
                              (split_entries listRaw)
                          else []))))"

section \<open>The health checker's env-file editing\<close>

text \<open>
  \<open>content.split(/\r?\n/)\<close>: the text is cut at every line feed, and a piece that is
  followed by a line feed loses one carriage return before it.
\<close>

definition strip_cr :: "string \<Rightarrow> string" where
  "strip_cr s = (if s \<noteq> [] \<and> last s = CHR 0x0D then butlast s else s)"

definition split_lines :: "string \<Rightarrow> string list" where
  "split_lines content =
     (let pieces = split CHR 0x0A content in map strip_cr (butlast pieces) @ [last pieces])"

text \<open>
  \<open>line.match(/^\s*([A-Za-z0-9_]+)\s*=\s*(.*)$/)\<close>: the name and the value when the line
  matches. Every repetition is greedy and no shorter choice can succeed where the longest
  fails, so the name is the longest run of name characters after the leading blanks and
  the value is the rest after the blanks that follow \<open>=\<close>. The dot matches no line
  terminator and \<open>$\<close> only the end of the line, so a value holding a carriage return (a
  line feed cannot be left in a line) makes the match fail.
\<close>

definition is_name_char :: "char \<Rightarrow> bool" where
  "is_name_char c =
     (let n = (of_char c :: nat)
      in (65 \<le> n \<and> n \<le> 90) \<or> (97 \<le> n \<and> n \<le> 122) \<or> (48 \<le> n \<and> n \<le> 57) \<or> n = 95)"

definition is_line_terminator :: "char \<Rightarrow> bool" where
  "is_line_terminator c = (c = CHR 0x0A \<or> c = CHR 0x0D)"

definition match_line :: "string \<Rightarrow> (string \<times> string) option" where
  "match_line line =
     (let s1 = dropWhile is_space line;
          name = takeWhile is_name_char s1;
          s2 = dropWhile is_space (dropWhile is_name_char s1)
      in if name = [] then None
         else
           (case s2 of
              [] \<Rightarrow> None
            | c # s3 \<Rightarrow>
                if c \<noteq> CHR ''='' then None
                else
                  (let v = dropWhile is_space s3
                   in if list_ex is_line_terminator v then None else Some (name, v))))"

text \<open>
  \<open>parseEnvLines\<close> returns \<open>{ lines, map }\<close>, here the pair of the two: the lines and, for
  every variable name, the value and the index of the last line that sets it.
\<close>

type_synonym env_map = "string \<rightharpoonup> (string \<times> nat)"
type_synonym parsed_env = "string list \<times> env_map"

fun build_map :: "string list \<Rightarrow> nat \<Rightarrow> env_map \<Rightarrow> env_map" where
  "build_map [] idx m = m"
| "build_map (line # rest) idx m =
     build_map rest (Suc idx)
       (case match_line line of Some (name, v) \<Rightarrow> m(name \<mapsto> (v, idx)) | None \<Rightarrow> m)"

definition parseEnvLines :: "string \<Rightarrow> parsed_env" where
  "parseEnvLines content = (let ls = split_lines content in (ls, build_map ls 0 Map.empty))"

definition stringifyEnv :: "parsed_env \<Rightarrow> string" where
  "stringifyEnv parsed = join [CHR 0x0A] (fst parsed)"

definition sanitizeValue :: "string \<Rightarrow> string" where
  "sanitizeValue v = (if v = [] then [] else trim v)"

text \<open>
  \<open>removeIdFromJson\<close>: \<open>JSON_parse\<close> and \<open>JSON_stringify\<close> are the built-ins; a parse that
  throws is caught and the value returned as it was. \<open>item?.id !== id\<close> keeps every item
  whose \<open>id\<close> is not the very string.
\<close>

definition removeIdFromJson ::
  "(string \<Rightarrow> json option) \<Rightarrow> (json \<Rightarrow> string) \<Rightarrow> string \<Rightarrow> string \<Rightarrow> string" where
  "removeIdFromJson JSON_parse JSON_stringify v ident =
     (case JSON_parse v of
        Some (JArr arr) \<Rightarrow>
          (let filtered = filter (\<lambda>item. get_prop item ''id'' \<noteq> Some (JStr ident)) arr
           in if length filtered \<noteq> length arr then JSON_stringify (JArr filtered) else v)
      | _ \<Rightarrow> v)"

definition removeIdFromCsv :: "string \<Rightarrow> string \<Rightarrow> string" where
  "removeIdFromCsv v ident =
     join '','' (filter (\<lambda>entry. trim (hd (split CHR '':'' entry)) \<noteq> ident) (split_entries v))"

definition removeIdFromList :: "string \<Rightarrow> string \<Rightarrow> string" where
  "removeIdFromList v ident = join '','' (filter (\<lambda>entry. entry \<noteq> ident) (split_entries v))"

definition updateEnvVariable :: "parsed_env \<Rightarrow> string \<Rightarrow> string \<Rightarrow> parsed_env" where
  "updateEnvVariable parsed envKey newValue =
     (case snd parsed envKey of
        None \<Rightarrow> parsed
      | Some entry \<Rightarrow>
          ((fst parsed)[snd entry := envKey @ ''='' @ newValue],
           (snd parsed)(envKey \<mapsto> (newValue, snd entry))))"

definition priorityKeys :: "string list" where
  "priorityKeys = [''MAILTESTER_KEYS_JSON'', ''MAILTESTER_KEYS_WITH_PLAN'', ''MAILTESTER_KEYS'']"

text \<open>
  The loop of \<open>removeSubscriptionFromEnv\<close> over the priority keys; it returns the parsed
  file and \<open>modified\<close>. \<open>continue\<close> is the recursive call, \<open>break\<close> the return.
\<close>

fun remove_loop ::
  "(string \<Rightarrow> json option) \<Rightarrow> (json \<Rightarrow> string) \<Rightarrow> string list \<Rightarrow> parsed_env \<Rightarrow> string \<Rightarrow>
   parsed_env \<times> bool" where
  "remove_loop JSON_parse JSON_stringify [] parsed ident = (parsed, False)"
| "remove_loop JSON_parse JSON_stringify (envKey # rest) parsed ident =
     (case snd parsed envKey of
        None \<Rightarrow> remove_loop JSON_parse JSON_stringify rest parsed ident
      | Some entry \<Rightarrow>
          (let originalValue = sanitizeValue (fst entry)
           in if originalValue = [] then remove_loop JSON_parse JSON_stringify rest parsed ident
              else
                (let updatedValue =
                       (if envKey = ''MAILTESTER_KEYS_JSON'' then
                          removeIdFromJson JSON_parse JSON_stringify originalValue ident
                        else if envKey = ''MAILTESTER_KEYS_WITH_PLAN'' then
                          removeIdFromCsv originalValue ident
                        else if envKey = ''MAILTESTER_KEYS'' then
                          removeIdFromList originalValue ident
                        else originalValue)
                 in if updatedValue \<noteq> originalValue then
                      (updateEnvVariable parsed envKey updatedValue, True)
                    else remove_loop JSON_parse JSON_stringify rest parsed ident)))"

text \<open>\<open>removeSubscriptionFromEnv\<close> returns \<open>{ content, modified }\<close>.\<close>

definition removeSubscriptionFromEnv ::
  "(string \<Rightarrow> json option) \<Rightarrow> (json \<Rightarrow> string) \<Rightarrow> string \<Rightarrow> string \<Rightarrow> string \<times> bool" where
  "removeSubscriptionFromEnv JSON_parse JSON_stringify envContent ident =
     (let r = remove_loop JSON_parse JSON_stringify priorityKeys (parseEnvLines envContent) ident
      in (stringifyEnv (fst r), snd r))"

section \<open>The key manager, as the modules of this development call it\<close>

text \<open>
  A key as \<open>getAllKeysStatus\<close> and \<open>getAvailableKeysSnapshot\<close> return it. The source reads
  \<open>subscriptionId\<close>, \<open>plan\<close> and \<open>nextRequestAllowedAt\<close> (\<open>None\<close> when the field is
  missing); the other fields are those of the persisted record.
\<close>

record key =
  subscriptionId :: string
  plan :: string
  windowCount :: nat
  windowStart :: int
  nextRequestAllowedAt :: "int option"
  lastValidatedAt :: "int option"
  createdAt :: int

text \<open>
  The module \<open>keyManager\<close> is required by the health checker, the watcher and the router.
  Its functions are taken as they are called: each acts on the pool \<open>'p\<close> and either
  returns or throws an error with a message (\<open>Inl\<close>), leaving the pool as it was.
\<close>

record 'p keyManager =
  getAllKeysStatus :: "'p \<Rightarrow> string + key list"
  getAvailableKeysSnapshot :: "'p \<Rightarrow> string + key list"
  registerKey :: "string \<Rightarrow> string \<Rightarrow> 'p \<Rightarrow> string + 'p"
  deleteKey :: "string \<Rightarrow> 'p \<Rightarrow> string + 'p"

text \<open>What a run does, in order: the calls it makes and the lines it logs.\<close>

datatype outcome = Returned | Threw string

datatype level = Debug | Info | Warn | Err

datatype event =
    Probe string
  | RegisterKey string string outcome
  | DeleteKey string outcome
  | WriteEnv string
  | Log level string string

section \<open>The health checker\<close>

text \<open>
  What \<open>axios.get(url, { timeout: 10000 })\<close> does for a key: the promise resolves with a
  status and the body, or rejects with the status of \<open>err.response\<close>, \<open>None\<close> when there
  is no response (a timeout, a network failure).
\<close>

datatype axios_result = Resolved nat json | Rejected "nat option"

text \<open>
  \<open>validateKey\<close> returns whether the key is valid; the events are the probe and its log.
  Whatever throws inside its \<open>try\<close> without a response is caught like a request that got
  none.
\<close>

definition validateKey :: "(string \<Rightarrow> axios_result) \<Rightarrow> string \<Rightarrow> bool \<times> event list" where
  "validateKey axios_get sid =
     (case axios_get sid of
        Resolved st body \<Rightarrow>
          (if st = 200 \<and> truthy body then (get_prop body ''code'' = Some (JStr ''ok''), [Probe sid])
           else (False, [Probe sid]))
      | Rejected st \<Rightarrow>
          (if st = Some 401 \<or> st = Some 403 then (False, [Probe sid])
           else (False, [Probe sid, Log Warn ''HealthChecker: API request error'' sid])))"

text \<open>
  The loop of \<open>performHealthCheck\<close> over the keys. Its state is the pool, \<open>envContent\<close>,
  \<open>cleanedIds\<close> and the events so far.
\<close>

fun healthCheck_loop ::
  "'p keyManager \<Rightarrow> (string \<Rightarrow> axios_result) \<Rightarrow> (string \<Rightarrow> json option) \<Rightarrow> (json \<Rightarrow> string) \<Rightarrow>
   key list \<Rightarrow> 'p \<times> string \<times> string list \<times> event list \<Rightarrow>
   'p \<times> string \<times> string list \<times> event list" where
  "healthCheck_loop km axios_get JSON_parse JSON_stringify [] st = st"
| "healthCheck_loop km axios_get JSON_parse JSON_stringify (k # rest)
     (pool, envContent, cleanedIds, tr) =
     (let sid = subscriptionId k;
          v = validateKey axios_get sid
      in if \<not> fst v then
           (case deleteKey km sid pool of
              Inr pool' \<Rightarrow>
                (let r = removeSubscriptionFromEnv JSON_parse JSON_stringify envContent sid
                 in healthCheck_loop km axios_get JSON_parse JSON_stringify rest
                      (pool', if snd r then fst r else envContent, cleanedIds @ [sid],
                       tr @ snd v @
                         [DeleteKey sid Returned,
                          Log Warn ''HealthChecker: removed inactive key'' sid]))
            | Inl msg \<Rightarrow>
                healthCheck_loop km axios_get JSON_parse JSON_stringify rest
                  (pool, envContent, cleanedIds,
                   tr @ snd v @
                     [DeleteKey sid (Threw msg),
                      Log Err ''HealthChecker: failed to delete key'' sid]))
         else healthCheck_loop km axios_get JSON_parse JSON_stringify rest
                (pool, envContent, cleanedIds, tr @ snd v))"

text \<open>
  \<open>performHealthCheck(envPath)\<close>. \<open>readEnv\<close> is the content of the env file, \<open>None\<close> when
  reading fails. The result is \<open>Inl\<close> when the promise rejects, which only
  \<open>getAllKeysStatus\<close> can cause, and the pool with the events otherwise. The pause between
  two probes is not modelled.
\<close>

definition performHealthCheck ::
  "'p keyManager \<Rightarrow> (string \<Rightarrow> axios_result) \<Rightarrow> (string \<Rightarrow> json option) \<Rightarrow> (json \<Rightarrow> string) \<Rightarrow>
   string option \<Rightarrow> 'p \<Rightarrow> string + ('p \<times> event list)" where
  "performHealthCheck km axios_get JSON_parse JSON_stringify readEnv pool =
     (case getAllKeysStatus km pool of
        Inl msg \<Rightarrow> Inl msg
      | Inr keys \<Rightarrow>
          if keys = [] then Inr (pool, [])
          else
            (let start =
                   (case readEnv of
                      Some c \<Rightarrow> (c, [])
                    | None \<Rightarrow> ([], [Log Err ''HealthChecker: failed to read .env'' []]));
                 fin = healthCheck_loop km axios_get JSON_parse JSON_stringify keys
                         (pool, fst start, [], snd start)
             in case fin of
                  (pool', envContent, cleanedIds, tr) \<Rightarrow>
                    Inr (pool', tr @ (if cleanedIds \<noteq> [] then [WriteEnv envContent] else []))))"

section \<open>The watcher: \<open>performSync\<close>\<close>

text \<open>
  A JavaScript \<open>Map\<close> is the list of its entries in insertion order. \<open>Map_set\<close> is
  \<open>m.set(k, v)\<close>: a key already there keeps its place and takes the new value.
  \<open>Map_of_entries\<close> is \<open>new Map(entries)\<close>, and the loop that sets one entry after the
  other; \<open>map_of m k\<close> is \<open>m.get(k)\<close>.
\<close>

fun Map_set :: "('k \<times> 'v) list \<Rightarrow> 'k \<Rightarrow> 'v \<Rightarrow> ('k \<times> 'v) list" where
  "Map_set [] k v = [(k, v)]"
| "Map_set ((k', v') # m) k v = (if k' = k then (k, v) # m else (k', v') # Map_set m k v)"

definition Map_of_entries :: "('k \<times> 'v) list \<Rightarrow> ('k \<times> 'v) list" where
  "Map_of_entries es = fold (\<lambda>e m. Map_set m (fst e) (snd e)) es []"

text \<open>
  The first loop of \<open>performSync\<close>, over \<open>desiredMap.entries()\<close>.
  \<open>currentPlan && currentPlan === plan\<close> is false for a missing and for an empty plan.
\<close>

fun register_loop ::
  "'p keyManager \<Rightarrow> (string \<times> string) list \<Rightarrow> (string \<times> string) list \<Rightarrow> 'p \<times> event list \<Rightarrow>
   'p \<times> event list" where
  "register_loop km existingMap [] st = st"
| "register_loop km existingMap ((sid, pln) # rest) (pool, tr) =
     (if (case map_of existingMap sid of Some currentPlan \<Rightarrow> currentPlan \<noteq> [] \<and> currentPlan = pln
          | None \<Rightarrow> False)
      then register_loop km existingMap rest
             (pool, tr @ [Log Debug ''Watcher: key already in desired state'' sid])
      else
        (case registerKey km sid pln pool of
           Inr pool' \<Rightarrow>
             register_loop km existingMap rest
               (pool', tr @ [RegisterKey sid pln Returned,
                             Log Info ''Watcher: applied key from .env'' sid])
         | Inl msg \<Rightarrow>
             register_loop km existingMap rest
               (pool, tr @ [RegisterKey sid pln (Threw msg),
                            Log Err ''Watcher: failed to register key'' sid])))"

text \<open>The second loop, over \<open>existingMap.keys()\<close>.\<close>

fun delete_loop ::
  "'p keyManager \<Rightarrow> (string \<times> string) list \<Rightarrow> string list \<Rightarrow> 'p \<times> event list \<Rightarrow>
   'p \<times> event list" where
  "delete_loop km desiredMap [] st = st"
| "delete_loop km desiredMap (sid # rest) (pool, tr) =
     (if map_of desiredMap sid \<noteq> None then delete_loop km desiredMap rest (pool, tr)
      else
        (case deleteKey km sid pool of
           Inr pool' \<Rightarrow>
             delete_loop km desiredMap rest
               (pool', tr @ [DeleteKey sid Returned,
                             Log Info ''Watcher: deleted key no longer in .env'' sid])
         | Inl msg \<Rightarrow>
             delete_loop km desiredMap rest
               (pool, tr @ [DeleteKey sid (Threw msg),
                            Log Err ''Watcher: failed to delete stale key'' sid])))"

text \<open>
  \<open>performSync(envPath)\<close>. \<open>envVars\<close> is what \<open>parseEnvFile(envPath)\<close> returned and
  \<open>envDir\<close> the directory of the path. As in the health check, the promise rejects only
  when \<open>getAllKeysStatus\<close> throws.
\<close>

definition performSync ::
  "'p keyManager \<Rightarrow> (string \<Rightarrow> json option) \<Rightarrow> (string \<Rightarrow> string \<Rightarrow> string option) \<Rightarrow>
   (string \<rightharpoonup> string) option \<Rightarrow> string \<Rightarrow> 'p \<Rightarrow> string + ('p \<times> event list)" where
  "performSync km JSON_parse readFileSync envVars envDir pool =
     (let desiredKeys = parseKeysFromEnv JSON_parse readFileSync envVars envDir;
          desiredMap = Map_of_entries desiredKeys
      in case getAllKeysStatus km pool of
           Inl msg \<Rightarrow> Inl msg
         | Inr existing \<Rightarrow>
             (let existingMap =
                    Map_of_entries (map (\<lambda>entry. (subscriptionId entry, plan entry)) existing)
              in Inr (delete_loop km desiredMap (map fst existingMap)
                        (register_loop km existingMap desiredMap (pool, [])))))"

section \<open>The router\<close>

text \<open>
  A reply is the HTTP status and the JSON body. An entry of \<open>keys\<close> in the body of
  \<open>GET /key/available\<close> is the key with its \<open>nextRequestInMs\<close>.
\<close>

datatype body =
    Message string
  | Failure string
  | Available string "(key \<times> int) list"

type_synonym reply = "nat \<times> body"

text \<open>
  \<open>GET /key/available\<close>. \<open>now\<close> is \<open>Date.now()\<close>; \<open>key.nextRequestAllowedAt || 0\<close> is 0 for
  a missing field and for 0.
\<close>

definition get_key_available :: "'p keyManager \<Rightarrow> int \<Rightarrow> 'p \<Rightarrow> reply" where
  "get_key_available km now pool =
     (case getAvailableKeysSnapshot km pool of
        Inl msg \<Rightarrow> (500, Failure ''Internal server error'')
      | Inr keys \<Rightarrow>
          (let payload =
                 map (\<lambda>k. (k, max ((case nextRequestAllowedAt k of
                                        None \<Rightarrow> 0
                                      | Some t \<Rightarrow> if t \<noteq> 0 then t else 0) - now) 0)) keys
           in if payload = [] then (200, Available ''wait'' [])
              else (200, Available ''ok'' payload)))"

text \<open>\<open>DELETE /keys/:id\<close>: the reply and the pool after it.\<close>

definition delete_keys_id :: "'p keyManager \<Rightarrow> string \<Rightarrow> 'p \<Rightarrow> reply \<times> 'p" where
  "delete_keys_id km ident pool =
     (if ident = [] then ((400, Failure ''id parameter is required''), pool)
      else
        (case deleteKey km ident pool of
           Inr pool' \<Rightarrow> ((200, Message (''Key '' @ ident @ '' deleted'')), pool')
         | Inl msg \<Rightarrow> ((500, Failure ''Internal server error''), pool)))"

section \<open>The key manager of the specification\<close>

text \<open>
  Modelled from the spec: the module \<open>keyManager\<close> (\<open>src/keyManager.js\<close>) is not among the
  sources. The pool is the list of the active keys, a deleted key is deleted outright.
  \<open>registerKey\<close> fails with \<open>InvalidPlan\<close> for a plan that is neither \<open>pro\<close> nor
  \<open>ultimate\<close>, creates an unknown id with zeroed counters and updates the plan of a known
  one in place, keeping its counters; \<open>deleteKey\<close> succeeds and is a no-op for an unknown
  id; \<open>getAllKeysStatus\<close> and the snapshot return every active key.
\<close>

definition spec_registerKey :: "int \<Rightarrow> string \<Rightarrow> string \<Rightarrow> key list \<Rightarrow> string + key list" where
  "spec_registerKey now sid pln pool =
     (if pln \<noteq> ''pro'' \<and> pln \<noteq> ''ultimate'' then Inl ''InvalidPlan''
      else if sid \<in> set (map subscriptionId pool) then
        Inr (map (\<lambda>k. if subscriptionId k = sid then k\<lparr>plan := pln\<rparr> else k) pool)
      else
        Inr (pool @
             [\<lparr>subscriptionId = sid, plan = pln, windowCount = 0, windowStart = now,
               nextRequestAllowedAt = Some now, lastValidatedAt = None, createdAt = now\<rparr>]))"

definition spec_deleteKey :: "string \<Rightarrow> key list \<Rightarrow> string + key list" where
  "spec_deleteKey sid pool = Inr (filter (\<lambda>k. subscriptionId k \<noteq> sid) pool)"

definition spec_keyManager :: "int \<Rightarrow> key list keyManager" where
  "spec_keyManager now =
     \<lparr>getAllKeysStatus = Inr, getAvailableKeysSnapshot = Inr,
      registerKey = spec_registerKey now, deleteKey = spec_deleteKey\<rparr>"

section \<open>Reading the events of a run\<close>

text \<open>
  The keys probed, the keys \<open>deleteKey\<close> was called for, the keys it returned for (the
  evictions) and the contents written to the env file, each in order.
\<close>

fun probe_of :: "event \<Rightarrow> string list" where
  "probe_of (Probe sid) = [sid]"
| "probe_of e = []"

definition probes :: "event list \<Rightarrow> string list" where
  "probes tr = concat (map probe_of tr)"

fun delete_call_of :: "event \<Rightarrow> string list" where
  "delete_call_of (DeleteKey sid r) = [sid]"
| "delete_call_of e = []"

definition delete_calls :: "event list \<Rightarrow> string list" where
  "delete_calls tr = concat (map delete_call_of tr)"

fun eviction_of :: "event \<Rightarrow> string list" where
  "eviction_of (DeleteKey sid Returned) = [sid]"
| "eviction_of e = []"

definition evictions :: "event list \<Rightarrow> string list" where
  "evictions tr = concat (map eviction_of tr)"

fun write_of :: "event \<Rightarrow> string list" where
  "write_of (WriteEnv c) = [c]"
| "write_of e = []"

definition writes :: "event list \<Rightarrow> string list" where
  "writes tr = concat (map write_of tr)"

text \<open>The registrations a run called for, as pairs of id and plan, in order.\<close>

fun register_call_of :: "event \<Rightarrow> (string \<times> string) list" where
  "register_call_of (RegisterKey sid pln r) = [(sid, pln)]"
| "register_call_of e = []"

definition register_calls :: "event list \<Rightarrow> (string \<times> string) list" where
  "register_calls tr = concat (map register_call_of tr)"

text \<open>A probe succeeds on HTTP 200 with a body whose \<open>code\<close> is \<open>ok\<close>, and on nothing else.\<close>

fun probe_ok :: "axios_result \<Rightarrow> bool" where
  "probe_ok (Resolved st body) =
     (st = 200 \<and> truthy body \<and> get_prop body ''code'' = Some (JStr ''ok''))"
| "probe_ok (Rejected st) = False"

section \<open>The three formats of the config source\<close>

text \<open>
  The plan of one entry, in the words of the specification as amended: its own plan
  value when it has a non-empty (truthy) one, the default plan otherwise, and of either
  \<open>pro\<close> when it is \<open>pro\<close> in any case of the letters and \<open>ultimate\<close> when it is not.
\<close>

fun entry_plan :: "string \<Rightarrow> string option \<Rightarrow> string" where
  "entry_plan defaultPlan None = (if toLowerCase defaultPlan = ''pro'' then ''pro'' else ''ultimate'')"
| "entry_plan defaultPlan (Some p) = (if toLowerCase p = ''pro'' then ''pro'' else ''ultimate'')"

text \<open>
  An \<open>id:plan\<close> pair: the id is the piece before the first colon, trimmed, and the plan
  the piece after it, when there is one and it is not empty.
\<close>

definition csv_id :: "string \<Rightarrow> string" where
  "csv_id entry = trim (hd (split CHR '':'' entry))"

definition csv_plan :: "string \<Rightarrow> string option" where
  "csv_plan entry =
     (case tl (split CHR '':'' entry) of
        [] \<Rightarrow> None
      | p # _ \<Rightarrow> if p = [] then None else Some p)"

text \<open>
  An object of the structured list: the id is the rendering of its \<open>id\<close>, trimmed, and
  the plan the rendering of its \<open>plan\<close>, when it has a truthy one. The object is readable
  when its id renders and, unless the id is blank, its plan does; an object that is not
  ends the list.
\<close>

definition json_id :: "json \<Rightarrow> string" where
  "json_id entry =
     (case js_String (js_or (get_prop entry ''id'') (JStr [])) of
        None \<Rightarrow> []
      | Some s \<Rightarrow> trim s)"

definition json_plan :: "json \<Rightarrow> string option" where
  "json_plan entry =
     (case get_prop entry ''plan'' of
        None \<Rightarrow> None
      | Some v \<Rightarrow> if truthy v then js_String v else None)"

definition json_readable :: "json \<Rightarrow> bool" where
  "json_readable entry =
     (js_String (js_or (get_prop entry ''id'') (JStr [])) \<noteq> None \<and>
      (json_id entry = [] \<or>
       (case get_prop entry ''plan'' of
          None \<Rightarrow> True
        | Some v \<Rightarrow> if truthy v then js_String v \<noteq> None else True)))"

text \<open>
  The three formats, to be compared with \<open>parseKeysFromEnv\<close>: the configured default
  plan, lower-cased and \<open>ultimate\<close> when none is configured; the structured list of
  \<open>{id, plan}\<close> objects, inline or in the file the path variable names, read up to the
  first object that is not readable; the comma-delimited \<open>id:plan\<close> pairs; and the
  comma-delimited bare ids, each with the default plan, which is \<open>pro\<close> when the
  configured default is and \<open>ultimate\<close> otherwise. Each keeps the entries with an id.
  \<open>first_non_empty\<close> is the precedence among them.
\<close>

definition default_plan :: "(string \<rightharpoonup> string) \<Rightarrow> string" where
  "default_plan ev = toLowerCase (str_or (ev ''MAILTESTER_DEFAULT_PLAN'') ''ultimate'')"

definition structured_source ::
  "(string \<Rightarrow> json option) \<Rightarrow> (string \<Rightarrow> string \<Rightarrow> string option) \<Rightarrow> (string \<rightharpoonup> string) \<Rightarrow>
   string \<Rightarrow> json list" where
  "structured_source JSON_parse readFileSync ev envDir =
     (let inline = str_or (ev ''MAILTESTER_KEYS_JSON'') [];
          path = str_or (ev ''MAILTESTER_KEYS_JSON_PATH'') [];
          raw = (if inline = [] \<and> path \<noteq> [] then
                   (case readFileSync envDir path of Some c \<Rightarrow> c | None \<Rightarrow> inline)
                 else inline)
      in if trim raw = [] then []
         else (case JSON_parse raw of Some (JArr parsed) \<Rightarrow> parsed | _ \<Rightarrow> []))"

definition structured_form ::
  "(string \<Rightarrow> json option) \<Rightarrow> (string \<Rightarrow> string \<Rightarrow> string option) \<Rightarrow> (string \<rightharpoonup> string) \<Rightarrow>
   string \<Rightarrow> desired_key list" where
  "structured_form JSON_parse readFileSync ev envDir =
     map (\<lambda>entry. (json_id entry, entry_plan (default_plan ev) (json_plan entry)))
       (filter (\<lambda>entry. json_id entry \<noteq> [])
          (takeWhile json_readable (structured_source JSON_parse readFileSync ev envDir)))"

definition pairs_form :: "(string \<rightharpoonup> string) \<Rightarrow> desired_key list" where
  "pairs_form ev =
     map (\<lambda>entry. (csv_id entry, entry_plan (default_plan ev) (csv_plan entry)))
       (filter (\<lambda>entry. csv_id entry \<noteq> [])
          (split_entries (str_or (ev ''MAILTESTER_KEYS_WITH_PLAN'') [])))"

definition bare_form :: "(string \<rightharpoonup> string) \<Rightarrow> desired_key list" where
  "bare_form ev =
     map (\<lambda>ident. (ident, if default_plan ev = ''pro'' then ''pro'' else ''ultimate''))
       (split_entries (str_or (ev ''MAILTESTER_KEYS'') []))"

fun first_non_empty :: "'a list list \<Rightarrow> 'a list" where
  "first_non_empty [] = []"
| "first_non_empty (xs # rest) = (if xs \<noteq> [] then xs else first_non_empty rest)"

section \<open>The variable an eviction would rewrite\<close>

text \<open>
  For a variable of the parsed env file: the value it takes when the id is removed,
  when the variable is set, is not blank and the removal changes its value; \<open>None\<close>
  otherwise.
\<close>

definition rewritten ::
  "(string \<Rightarrow> json option) \<Rightarrow> (json \<Rightarrow> string) \<Rightarrow> env_map \<Rightarrow> string \<Rightarrow> string \<Rightarrow> string option" where
  "rewritten JSON_parse JSON_stringify m ident envKey =
     (case m envKey of
        None \<Rightarrow> None
      | Some entry \<Rightarrow>
          (let old = sanitizeValue (fst entry);
               new = (if envKey = ''MAILTESTER_KEYS_JSON'' then
                        removeIdFromJson JSON_parse JSON_stringify old ident
                      else if envKey = ''MAILTESTER_KEYS_WITH_PLAN'' then removeIdFromCsv old ident
                      else if envKey = ''MAILTESTER_KEYS'' then removeIdFromList old ident
                      else old)
           in if old \<noteq> [] \<and> new \<noteq> old then Some new else None))"

section \<open>The two maps of \<open>performSync\<close>\<close>

text \<open>
  \<open>desiredMap\<close> as \<open>performSync\<close> builds it from the env variables, and \<open>existingMap\<close> as
  it builds it from what \<open>getAllKeysStatus\<close> returned. \<open>plans\<close> is the plan a pool of the
  specification's key manager holds for an id, the last record winning as in
  \<open>existingMap\<close>.
\<close>

definition desiredMap_of ::
  "(string \<Rightarrow> json option) \<Rightarrow> (string \<Rightarrow> string \<Rightarrow> string option) \<Rightarrow>
   (string \<rightharpoonup> string) option \<Rightarrow> string \<Rightarrow> (string \<times> string) list" where
  "desiredMap_of JSON_parse readFileSync envVars envDir =
     Map_of_entries (parseKeysFromEnv JSON_parse readFileSync envVars envDir)"

definition existingMap_of :: "key list \<Rightarrow> (string \<times> string) list" where
  "existingMap_of existing =
     Map_of_entries (map (\<lambda>entry. (subscriptionId entry, plan entry)) existing)"

definition plans :: "key list \<Rightarrow> (string \<rightharpoonup> string)" where
  "plans pool = map_of (rev (map (\<lambda>entry. (subscriptionId entry, plan entry)) pool))"

section \<open>Example inputs\<close>

text \<open>
  A key with zeroed counters; a key manager that holds no state, lists the given keys and
  either accepts every call or throws on every registration and deletion; and an upstream
  that times out for \<open>k1\<close>, rejects \<open>k2\<close> with HTTP 401 and accepts every other key.
\<close>

definition example_key :: "string \<Rightarrow> string \<Rightarrow> key" where
  "example_key sid pln =
     \<lparr>subscriptionId = sid, plan = pln, windowCount = 0, windowStart = 0,
      nextRequestAllowedAt = None, lastValidatedAt = None, createdAt = 0\<rparr>"

definition stub_keyManager :: "key list \<Rightarrow> bool \<Rightarrow> unit keyManager" where
  "stub_keyManager keys down =
     \<lparr>getAllKeysStatus = (\<lambda>p. Inr keys), getAvailableKeysSnapshot = (\<lambda>p. Inr keys),
      registerKey = (\<lambda>sid pln p. if down then Inl ''store down'' else Inr p),
      deleteKey = (\<lambda>sid p. if down then Inl ''store down'' else Inr p)\<rparr>"

definition example_axios :: "string \<Rightarrow> axios_result" where
  "example_axios sid =
     (if sid = ''k1'' then Rejected None
      else if sid = ''k2'' then Rejected (Some 401)
      else Resolved 200 (JObj [(''code'', JStr ''ok'')]))"

text \<open>An env file's variables: a default plan, one pair with an empty plan, two bare ids.\<close>

definition example_env :: "string \<rightharpoonup> string" where
  "example_env =
     Map.empty(''MAILTESTER_DEFAULT_PLAN'' \<mapsto> ''pro'', ''MAILTESTER_KEYS_WITH_PLAN'' \<mapsto> ''k1:'',
               ''MAILTESTER_KEYS'' \<mapsto> ''k8, k9'')"

text \<open>Two keys of a snapshot, allowed at the times 1500 and 900.\<close>

definition example_keys :: "key list" where
  "example_keys =
     [(example_key ''k1'' ''pro'')\<lparr>nextRequestAllowedAt := Some 1500\<rparr>,
      (example_key ''k2'' ''ultimate'')\<lparr>nextRequestAllowedAt := Some 900\<rparr>]"

text \<open>An env file of three lines, the id \<open>k1\<close> in two of its variables.\<close>

definition example_content :: string where
  "example_content =
     ''PORT=3000'' @ [CHR 0x0A] @ ''MAILTESTER_KEYS_WITH_PLAN=k1:pro,k2:pro'' @ [CHR 0x0A] @
     ''MAILTESTER_KEYS=k1,k3''"

text \<open>A pool of the specification's key manager: \<open>k1\<close> on the plan \<open>ultimate\<close>, and \<open>old\<close>.\<close>

definition example_pool :: "key list" where
  "example_pool = [example_key ''k1'' ''ultimate'', example_key ''old'' ''pro'']"

text \<open>
  The text of a structured list of three objects, the second with a plan that \<open>String\<close>
  cannot render, what \<open>JSON.parse\<close> reads from it, and env variables that hold it next to
  a pair and a bare id.
\<close>

definition quoted :: "string \<Rightarrow> string" where
  "quoted s = [CHR 0x22] @ s @ [CHR 0x22]"

definition example_json_text :: string where
  "example_json_text =
     ''[{'' @ quoted ''id'' @ '':'' @ quoted ''a'' @ '','' @ quoted ''plan'' @ '':'' @ quoted ''PRO'' @
     ''},{'' @ quoted ''id'' @ '':'' @ quoted ''b'' @ '','' @ quoted ''plan'' @ '':{'' @
     quoted ''toString'' @ '':1}},{'' @ quoted ''id'' @ '':'' @ quoted ''c'' @ ''}]''"

definition example_json :: "json list" where
  "example_json =
     [JObj [(''id'', JStr ''a''), (''plan'', JStr ''PRO'')],
      JObj [(''id'', JStr ''b''), (''plan'', JObj [(''toString'', JNum ''1'')])],
      JObj [(''id'', JStr ''c'')]]"

definition example_parse :: "string \<Rightarrow> json option" where
  "example_parse s = (if s = example_json_text then Some (JArr example_json) else None)"

definition example_env_json :: "string \<rightharpoonup> string" where
  "example_env_json =
     Map.empty(''MAILTESTER_KEYS_JSON'' \<mapsto> example_json_text,
               ''MAILTESTER_KEYS_WITH_PLAN'' \<mapsto> ''k1:pro'', ''MAILTESTER_KEYS'' \<mapsto> ''k8'')"

text \<open>An env file of two lines with CRLF line endings.\<close>

definition example_crlf :: string where
  "example_crlf = ''A=1'' @ [CHR 0x0D, CHR 0x0A] @ ''MAILTESTER_KEYS=k1,k2''"

section \<open>Properties of the parser\<close>

text \<open>
  A blank value has no entries, so the guards on \<open>trim\<close> in \<open>parseKeysFromEnv\<close> change
  nothing for the pairs and the bare ids. The loop over the pairs is a filter on the id
  followed by a map; the loop over the structured list is the same on the entries before
  the first one that is not readable.
\<close>

lemma split_ne: "split c s \<noteq> []"
  by (induction s) (auto simp: Let_def)

lemma split_set: "p \<in> set (split c s) \<Longrightarrow> set p \<subseteq> set s"
proof (induction s arbitrary: p)
  case Nil then show ?case by simp
next
  case (Cons x xs)
  obtain h t where ht: "split c xs = h # t"
    using split_ne [of c xs] by (cases "split c xs") auto
  from Cons.IH [of h] ht have h: "set h \<subseteq> set xs" by simp
  from Cons.IH ht have t: "\<And>q. q \<in> set t \<Longrightarrow> set q \<subseteq> set xs" by simp
  from Cons.prems ht have "p = [] \<or> p = h \<or> p = x # h \<or> p \<in> set t"
    by (auto simp: Let_def split: if_splits)
  with h t show ?case by auto
qed

lemma dropWhile_all: "(\<forall>x\<in>set (dropWhile P s). P x) \<longleftrightarrow> (\<forall>x\<in>set s. P x)"
  by (induction s) auto

lemma trim_empty_iff: "trim s = [] \<longleftrightarrow> (\<forall>c\<in>set s. is_space c)"
  by (simp add: trim_def dropWhile_eq_Nil_conv dropWhile_all)

lemma split_entries_blank: "trim raw = [] \<Longrightarrow> split_entries raw = []"
proof -
  assume "trim raw = []"
  then have all: "\<forall>c\<in>set raw. is_space c" by (simp add: trim_empty_iff)
  have "trim p = []" if "p \<in> set (split CHR '','' raw)" for p
    using split_set [OF that] all by (auto simp: trim_empty_iff)
  then show ?thesis by (simp add: split_entries_def filter_empty_conv)
qed

lemma normalizePlan_cases: "normalizePlan s = ''pro'' \<or> normalizePlan s = ''ultimate''"
  by (simp add: normalizePlan_def)

lemma toLowerCase_idem: "toLowerCase (toLowerCase s) = toLowerCase s"
proof -
  have "lower_char (lower_char c) = lower_char c" for c
    by (auto simp: lower_char_def Let_def)
  then show ?thesis by (simp add: toLowerCase_def)
qed

lemma entry_plan_cases: "entry_plan dp p = ''pro'' \<or> entry_plan dp p = ''ultimate''"
  by (cases p) auto

lemma csvKeys_loop_eq:
  "csvKeys_loop dp es =
     map (\<lambda>e. (csv_id e, entry_plan dp (csv_plan e))) (filter (\<lambda>e. csv_id e \<noteq> []) es)"
proof (induction es)
  case Nil show ?case by simp
next
  case (Cons e es)
  have id: "trim (str_or (Some (hd (split CHR '':'' e))) []) = csv_id e"
    by (simp add: csv_id_def)
  have pl: "normalizePlan (str_or (case tl (split CHR '':'' e) of [] \<Rightarrow> None | p # x \<Rightarrow> Some p) dp)
            = entry_plan dp (csv_plan e)"
    by (simp add: csv_plan_def normalizePlan_def split: list.splits)
  show ?case using Cons.IH by (simp add: Let_def id pl del: str_or.simps)
qed

lemma normalizePlan_value_plan:
  "normalizePlan_value (js_or (get_prop j ''plan'') (JStr dp)) =
     (case get_prop j ''plan'' of
        None \<Rightarrow> Some (entry_plan dp None)
      | Some v \<Rightarrow>
          if truthy v then map_option (\<lambda>p. entry_plan dp (Some p)) (js_String v)
          else Some (entry_plan dp None))"
  by (cases "get_prop j ''plan''")
     (auto simp: normalizePlan_value_def normalizePlan_def option.map_comp comp_def
           intro!: option.map_cong)

lemma jsonKeys_loop_eq:
  "jsonKeys_loop dp js =
     map (\<lambda>j. (json_id j, entry_plan dp (json_plan j)))
       (filter (\<lambda>j. json_id j \<noteq> []) (takeWhile json_readable js))"
proof (induction js)
  case Nil show ?case by simp
next
  case (Cons j js)
  show ?case
  proof (cases "js_String (js_or (get_prop j ''id'') (JStr []))")
    case None
    then have "\<not> json_readable j" by (simp add: json_readable_def)
    with None show ?thesis by simp
  next
    case (Some s)
    then have id: "json_id j = trim s" by (simp add: json_id_def)
    show ?thesis
    proof (cases "trim s = []")
      case True
      with Some id have "json_readable j" by (simp add: json_readable_def)
      with Some True id Cons.IH show ?thesis by (simp add: Let_def)
    next
      case False
      show ?thesis
      proof (cases "normalizePlan_value (js_or (get_prop j ''plan'') (JStr dp))")
        case None
        then have "\<not> json_readable j"
          using False id
          by (auto simp: normalizePlan_value_plan json_readable_def split: option.splits if_splits)
        with Some False None show ?thesis by (simp add: Let_def)
      next
        case (Some pln)
        then have r: "json_readable j" and p: "pln = entry_plan dp (json_plan j)"
          using \<open>js_String (js_or (get_prop j ''id'') (JStr [])) = Some s\<close>
          by (auto simp: normalizePlan_value_plan json_readable_def json_plan_def
                   split: option.splits if_splits)
        with \<open>js_String (js_or (get_prop j ''id'') (JStr [])) = Some s\<close> False Some id Cons.IH
        show ?thesis by (simp add: Let_def)
      qed
    qed
  qed
qed

lemma parseKeysFromEnv_forms:
  "parseKeysFromEnv J R (Some ev) d =
     first_non_empty [structured_form J R ev d, pairs_form ev, bare_form ev]"
proof -
  have b: "(if trim raw \<noteq> [] then map f (split_entries raw) else []) = map f (split_entries raw)"
    for raw and f :: "string \<Rightarrow> desired_key"
    by (simp add: split_entries_blank)
  have c: "(if trim raw \<noteq> [] then csvKeys_loop dp (split_entries raw) else []) =
           csvKeys_loop dp (split_entries raw)" for raw dp
    by (simp add: split_entries_blank)
  have n: "normalizePlan (default_plan ev) = (if default_plan ev = ''pro'' then ''pro'' else ''ultimate'')"
    by (simp add: normalizePlan_def default_plan_def toLowerCase_idem)
  have s: "structured_form J R ev d =
      (let inline = str_or (ev ''MAILTESTER_KEYS_JSON'') [];
           path = str_or (ev ''MAILTESTER_KEYS_JSON_PATH'') [];
           raw = (if inline = [] \<and> path \<noteq> [] then
                    (case R d path of Some c \<Rightarrow> c | None \<Rightarrow> inline)
                  else inline)
       in if trim raw \<noteq> [] then
            (case J raw of Some (JArr parsed) \<Rightarrow> jsonKeys_loop (default_plan ev) parsed | _ \<Rightarrow> [])
          else [])"
    by (simp add: structured_form_def structured_source_def Let_def jsonKeys_loop_eq
             split: option.splits json.splits)
  have p: "pairs_form ev =
      csvKeys_loop (default_plan ev) (split_entries (str_or (ev ''MAILTESTER_KEYS_WITH_PLAN'') []))"
    by (simp add: pairs_form_def csvKeys_loop_eq)
  show ?thesis
    unfolding parseKeysFromEnv_def s p bare_form_def default_plan_def [symmetric] Let_def b c n
      option.case first_non_empty.simps
    by simp
qed

lemma parseKeysFromEnv_plans:
  "k \<in> set (parseKeysFromEnv J R envVars d) \<Longrightarrow> snd k = ''pro'' \<or> snd k = ''ultimate''"
proof -
  have s: "\<forall>k\<in>set (structured_form J R ev d). snd k = ''pro'' \<or> snd k = ''ultimate''" for ev
    using entry_plan_cases by (auto simp: structured_form_def)
  have p: "\<forall>k\<in>set (pairs_form ev). snd k = ''pro'' \<or> snd k = ''ultimate''" for ev
    using entry_plan_cases by (auto simp: pairs_form_def)
  have b: "\<forall>k\<in>set (bare_form ev). snd k = ''pro'' \<or> snd k = ''ultimate''" for ev
    by (auto simp: bare_form_def)
  have "\<forall>k\<in>set (parseKeysFromEnv J R envVars d). snd k = ''pro'' \<or> snd k = ''ultimate''"
  proof (cases envVars)
    case None
    then show ?thesis by (simp add: parseKeysFromEnv_def)
  next
    case (Some ev)
    show ?thesis unfolding Some parseKeysFromEnv_forms using s [of ev] p [of ev] b [of ev]
      by (simp split: if_splits)
  qed
  then show "k \<in> set (parseKeysFromEnv J R envVars d) \<Longrightarrow> snd k = ''pro'' \<or> snd k = ''ultimate''"
    by blast
qed

text \<open>The definitions a concrete run of the parser unfolds.\<close>

lemmas parse_defs = parseKeysFromEnv_def structured_form_def structured_source_def
  pairs_form_def bare_form_def default_plan_def example_env_def split_entries_def trim_def
  is_space_def normalizePlan_def normalizePlan_value_def toLowerCase_def lower_char_def
  char_of_def bit_Suc_0_iff Let_def csv_id_def csv_plan_def json_id_def json_plan_def
  json_readable_def example_env_json_def example_parse_def example_json_def
  example_json_text_def quoted_def

subsection \<open>C3: the precedence of the three formats\<close>




subsection \<open>C8: every desired plan is \<open>pro\<close> or \<open>ultimate\<close>\<close>




section \<open>Properties of the health checker\<close>

text \<open>
  The events of the loop, read key by key: every key is probed, \<open>deleteKey\<close> is called
  for the keys whose probe is not a success, the evictions are \<open>cleanedIds\<close>, and the
  loop itself writes nothing.
\<close>

lemma probes_append [simp]: "probes (a @ b) = probes a @ probes b"
  by (simp add: probes_def)
lemma delete_calls_append [simp]: "delete_calls (a @ b) = delete_calls a @ delete_calls b"
  by (simp add: delete_calls_def)
lemma evictions_append [simp]: "evictions (a @ b) = evictions a @ evictions b"
  by (simp add: evictions_def)
lemma writes_append [simp]: "writes (a @ b) = writes a @ writes b"
  by (simp add: writes_def)

lemma validateKey_events:
  "probes (snd (validateKey ax sid)) = [sid]"
  "delete_calls (snd (validateKey ax sid)) = []"
  "evictions (snd (validateKey ax sid)) = []"
  "writes (snd (validateKey ax sid)) = []"
  by (auto simp: validateKey_def probes_def delete_calls_def evictions_def writes_def split: axios_result.splits)

lemma validateKey_ok: "fst (validateKey ax sid) = probe_ok (ax sid)"
  by (auto simp: validateKey_def split: axios_result.splits)

lemma events_Cons [simp]:
  "probes (e # es) = probe_of e @ probes es"
  "delete_calls (e # es) = delete_call_of e @ delete_calls es"
  "evictions (e # es) = eviction_of e @ evictions es"
  "writes (e # es) = write_of e @ writes es"
  by (simp_all add: probes_def delete_calls_def evictions_def writes_def)

lemma events_Nil [simp]:
  "probes [] = []" "delete_calls [] = []" "evictions [] = []" "writes [] = []"
  by (simp_all add: probes_def delete_calls_def evictions_def writes_def)

lemma healthCheck_loop_step:
  "healthCheck_loop km ax J S (k # rest) (pool, env, cl, tr) =
     (if probe_ok (ax (subscriptionId k)) then
        healthCheck_loop km ax J S rest (pool, env, cl, tr @ snd (validateKey ax (subscriptionId k)))
      else
        (case deleteKey km (subscriptionId k) pool of
           Inr pool' \<Rightarrow>
             healthCheck_loop km ax J S rest
               (pool',
                if snd (removeSubscriptionFromEnv J S env (subscriptionId k))
                then fst (removeSubscriptionFromEnv J S env (subscriptionId k)) else env,
                cl @ [subscriptionId k],
                tr @ snd (validateKey ax (subscriptionId k)) @
                  [DeleteKey (subscriptionId k) Returned,
                   Log Warn ''HealthChecker: removed inactive key'' (subscriptionId k)])
         | Inl msg \<Rightarrow>
             healthCheck_loop km ax J S rest
               (pool, env, cl,
                tr @ snd (validateKey ax (subscriptionId k)) @
                  [DeleteKey (subscriptionId k) (Threw msg),
                   Log Err ''HealthChecker: failed to delete key'' (subscriptionId k)])))"
  by (simp add: Let_def validateKey_ok split: sum.splits)

lemma healthCheck_loop_events:
  "healthCheck_loop km ax J S keys (pool, env, cl, tr) = (pool', env', cl', tr') \<Longrightarrow>
   probes tr' = probes tr @ map subscriptionId keys \<and>
   delete_calls tr' =
     delete_calls tr @ filter (\<lambda>sid. \<not> probe_ok (ax sid)) (map subscriptionId keys) \<and>
   (\<exists>new. cl' = cl @ new \<and> evictions tr' = evictions tr @ new) \<and>
   writes tr' = writes tr"
proof (induction keys arbitrary: pool env cl tr)
  case Nil
  then show ?case by simp
next
  case (Cons k rest)
  let ?sid = "subscriptionId k"
  show ?case
  proof (cases "probe_ok (ax ?sid)")
    case True
    with Cons.prems have
      "healthCheck_loop km ax J S rest (pool, env, cl, tr @ snd (validateKey ax ?sid)) =
         (pool', env', cl', tr')"
      by (simp only: healthCheck_loop_step if_True)
    from Cons.IH [OF this] True show ?thesis
      by (simp add: validateKey_events)
  next
    case False
    show ?thesis
    proof (cases "deleteKey km ?sid pool")
      case (Inl msg)
      with False Cons.prems have
        "healthCheck_loop km ax J S rest
           (pool, env, cl,
            tr @ snd (validateKey ax ?sid) @
              [DeleteKey ?sid (Threw msg), Log Err ''HealthChecker: failed to delete key'' ?sid]) =
         (pool', env', cl', tr')"
        by (simp only: healthCheck_loop_step if_False sum.case)
      from Cons.IH [OF this] False show ?thesis
        by (simp add: validateKey_events)
    next
      case (Inr p2)
      with False Cons.prems have
        "healthCheck_loop km ax J S rest
           (p2,
            if snd (removeSubscriptionFromEnv J S env ?sid)
            then fst (removeSubscriptionFromEnv J S env ?sid) else env,
            cl @ [?sid],
            tr @ snd (validateKey ax ?sid) @
              [DeleteKey ?sid Returned, Log Warn ''HealthChecker: removed inactive key'' ?sid]) =
         (pool', env', cl', tr')"
        by (simp only: healthCheck_loop_step if_False sum.case)
      from Cons.IH [OF this] False show ?thesis
        by (auto simp: validateKey_events)
    qed
  qed
qed

lemma performHealthCheck_run:
  assumes "getAllKeysStatus km pool = Inr keys"
  shows "\<exists>pool' tr cl env'.
           performHealthCheck km ax J S readEnv pool =
             Inr (pool', tr @ (if cl \<noteq> [] then [WriteEnv env'] else [])) \<and>
           probes tr = map subscriptionId keys \<and>
           delete_calls tr = filter (\<lambda>sid. \<not> probe_ok (ax sid)) (map subscriptionId keys) \<and>
           evictions tr = cl \<and> writes tr = []"
proof (cases "keys = []")
  case True
  with assms have "performHealthCheck km ax J S readEnv pool = Inr (pool, [] @ (if [] \<noteq> ([]::string list) then [WriteEnv []] else []))"
    by (simp add: performHealthCheck_def)
  with True show ?thesis by (intro exI [of _ pool] exI [of _ "[]"]) auto
next
  case False
  define start where "start =
     (case readEnv of Some c \<Rightarrow> (c, [])
      | None \<Rightarrow> ([], [Log Err ''HealthChecker: failed to read .env'' []]))"
  have st: "probes (snd start) = []" "delete_calls (snd start) = []"
    "evictions (snd start) = []" "writes (snd start) = []"
    by (simp_all add: start_def split: option.splits)
  obtain pool' env' cl' tr' where fin:
    "healthCheck_loop km ax J S keys (pool, fst start, [], snd start) = (pool', env', cl', tr')"
    by (metis prod_cases4)
  from healthCheck_loop_events [OF fin] st have ev:
    "probes tr' = map subscriptionId keys"
    "delete_calls tr' = filter (\<lambda>sid. \<not> probe_ok (ax sid)) (map subscriptionId keys)"
    "evictions tr' = cl'" "writes tr' = []"
    by auto
  from assms False fin have
    "performHealthCheck km ax J S readEnv pool =
       Inr (pool', tr' @ (if cl' \<noteq> [] then [WriteEnv env'] else []))"
    by (simp add: performHealthCheck_def start_def Let_def)
  with ev show ?thesis by blast
qed

lemmas run_defs = performHealthCheck_def stub_keyManager_def example_key_def example_axios_def
  validateKey_def Let_def removeSubscriptionFromEnv_def parseEnvLines_def split_lines_def
  strip_cr_def match_line_def is_space_def is_name_char_def is_line_terminator_def
  stringifyEnv_def sanitizeValue_def trim_def removeIdFromJson_def removeIdFromCsv_def
  removeIdFromList_def updateEnvVariable_def priorityKeys_def split_entries_def

lemma performHealthCheck_trace:
  assumes "getAllKeysStatus km pool = Inr keys"
    and "performHealthCheck km ax J S readEnv pool = Inr (pool', tr)"
  obtains tr0 cl env' where
    "tr = tr0 @ (if cl \<noteq> [] then [WriteEnv env'] else [])"
    "probes tr0 = map subscriptionId keys"
    "delete_calls tr0 = filter (\<lambda>sid. \<not> probe_ok (ax sid)) (map subscriptionId keys)"
    "evictions tr0 = cl" "writes tr0 = []"
proof -
  from performHealthCheck_run [OF assms(1), of ax J S readEnv]
  obtain p2 tr0 cl env' where
    run: "performHealthCheck km ax J S readEnv pool =
       Inr (p2, tr0 @ (if cl \<noteq> [] then [WriteEnv env'] else []))"
    and ev: "probes tr0 = map subscriptionId keys"
      "delete_calls tr0 = filter (\<lambda>sid. \<not> probe_ok (ax sid)) (map subscriptionId keys)"
      "evictions tr0 = cl" "writes tr0 = []"
    by (elim exE conjE)
  from run assms(2) have "tr = tr0 @ (if cl \<noteq> [] then [WriteEnv env'] else [])"
    by simp
  from this ev show ?thesis by (rule that)
qed

subsection \<open>C1: which probe failures evict a key\<close>

text \<open>
  C1 says that a probe failing with a transient error (a timeout, a network failure, a
  service error other than HTTP 401 or 403) leaves the key in the pool, with no call of
  \<open>deleteKey\<close>. The run below refutes it: the probe of \<open>k1\<close> times out, \<open>validateKey\<close> logs
  its warning and returns \<open>false\<close>, and \<open>performHealthCheck\<close> calls \<open>deleteKey\<close> for \<open>k1\<close>
  and writes the env file.
\<close>

theorem transient_failure_evicts:
  "performHealthCheck (stub_keyManager [example_key ''k1'' ''pro''] False) example_axios
     (\<lambda>s. None) (\<lambda>v. []) (Some []) () =
   Inr ((), [Probe ''k1'', Log Warn ''HealthChecker: API request error'' ''k1'',
             DeleteKey ''k1'' Returned, Log Warn ''HealthChecker: removed inactive key'' ''k1'',
             WriteEnv []])"
  by (simp add: run_defs)

text \<open>
  C1, as amended: in one cycle \<open>deleteKey\<close> is called for exactly the keys whose probe
  is not an HTTP 200 with a body of code \<open>ok\<close>, in the order of the list; in particular
  for every key whose request is rejected, whether with HTTP 401 or 403, with another
  status, or with no response at all.
\<close>

theorem failed_probe_evicts:
  assumes "getAllKeysStatus km pool = Inr keys"
    and "performHealthCheck km ax J S readEnv pool = Inr (pool', tr)"
  shows "delete_calls tr = filter (\<lambda>sid. \<not> probe_ok (ax sid)) (map subscriptionId keys) \<and>
         (\<forall>k\<in>set keys. \<forall>st. ax (subscriptionId k) = Rejected st \<longrightarrow>
            subscriptionId k \<in> set (delete_calls tr))"
proof -
  from assms obtain tr0 cl env' where
    tr: "tr = tr0 @ (if cl \<noteq> [] then [WriteEnv env'] else [])"
    and p: "probes tr0 = map subscriptionId keys"
    and d: "delete_calls tr0 = filter (\<lambda>sid. \<not> probe_ok (ax sid)) (map subscriptionId keys)"
    and e: "evictions tr0 = cl" and w: "writes tr0 = []"
    by (rule performHealthCheck_trace)
  from tr d have "delete_calls tr = filter (\<lambda>sid. \<not> probe_ok (ax sid)) (map subscriptionId keys)"
    by simp
  then show ?thesis by auto
qed

text \<open>The amended C1 at three keys: a timeout, an HTTP 401 and a success.\<close>

theorem failed_probe_evicts_witness:
  "getAllKeysStatus (stub_keyManager [example_key ''k1'' ''pro'', example_key ''k2'' ''pro'', example_key ''k3'' ''pro''] False) () =
     Inr [example_key ''k1'' ''pro'', example_key ''k2'' ''pro'', example_key ''k3'' ''pro''] \<and>
   (\<exists>tr. performHealthCheck (stub_keyManager [example_key ''k1'' ''pro'', example_key ''k2'' ''pro'', example_key ''k3'' ''pro''] False)
      example_axios (\<lambda>s. None) (\<lambda>v. []) (Some []) () = Inr ((), tr) \<and>
      delete_calls tr = [''k1'', ''k2''])"
proof -
  let ?keys = "[example_key ''k1'' ''pro'', example_key ''k2'' ''pro'', example_key ''k3'' ''pro'']"
  let ?km = "stub_keyManager ?keys False"
  have g: "getAllKeysStatus ?km () = Inr ?keys" by (simp add: stub_keyManager_def)
  obtain tr where r: "performHealthCheck ?km example_axios (\<lambda>s. None) (\<lambda>v. []) (Some []) () = Inr ((), tr)"
    by (simp add: run_defs)
  from failed_probe_evicts [OF g r] have "delete_calls tr = [''k1'', ''k2'']"
    by (simp add: example_key_def example_axios_def)
  with g r show ?thesis by blast
qed

subsection \<open>C5: one key's failure does not abort the cycle\<close>

text \<open>
  C5: whatever the probes answer and whether \<open>deleteKey\<close> returns or throws, once
  \<open>getAllKeysStatus\<close> has returned the keys, \<open>performHealthCheck\<close> returns (its promise
  does not reject) and every key of the list has been probed, in order.
\<close>

theorem health_cycle_never_aborts:
  assumes "getAllKeysStatus km pool = Inr keys"
  shows "\<exists>pool' tr. performHealthCheck km ax J S readEnv pool = Inr (pool', tr) \<and>
           probes tr = map subscriptionId keys"
proof -
  from performHealthCheck_run [OF assms, of ax J S readEnv]
  obtain pool' tr cl env' where
    run: "performHealthCheck km ax J S readEnv pool =
       Inr (pool', tr @ (if cl \<noteq> [] then [WriteEnv env'] else []))"
    and p: "probes tr = map subscriptionId keys"
    and "delete_calls tr = filter (\<lambda>sid. \<not> probe_ok (ax sid)) (map subscriptionId keys)"
    and "evictions tr = cl" and "writes tr = []"
    by (elim exE conjE)
  from p have "probes (tr @ (if cl \<noteq> [] then [WriteEnv env'] else [])) = map subscriptionId keys"
    by simp
  with run show ?thesis by blast
qed

text \<open>C5 at two keys, the first probe timing out and every deletion throwing.\<close>

theorem health_cycle_never_aborts_witness:
  "getAllKeysStatus (stub_keyManager [example_key ''k1'' ''pro'', example_key ''k3'' ''pro''] True) () =
     Inr [example_key ''k1'' ''pro'', example_key ''k3'' ''pro''] \<and>
   (\<exists>tr. performHealthCheck (stub_keyManager [example_key ''k1'' ''pro'', example_key ''k3'' ''pro''] True)
      example_axios (\<lambda>s. None) (\<lambda>v. []) None () = Inr ((), tr) \<and>
      probes tr = [''k1'', ''k3''])"
proof -
  let ?keys = "[example_key ''k1'' ''pro'', example_key ''k3'' ''pro'']"
  let ?km = "stub_keyManager ?keys True"
  have g: "getAllKeysStatus ?km () = Inr ?keys" by (simp add: stub_keyManager_def)
  from health_cycle_never_aborts [OF g, of example_axios "\<lambda>s. None" "\<lambda>v. []" None]
  have "\<exists>tr. performHealthCheck ?km example_axios (\<lambda>s. None) (\<lambda>v. []) None () = Inr ((), tr) \<and>
      probes tr = [''k1'', ''k3'']"
    by (simp add: example_key_def)
  with g show ?thesis by blast
qed

subsection \<open>C10: the env file is written only after an eviction\<close>

text \<open>
  C10: a cycle writes the env file exactly when \<open>deleteKey\<close> returned for at least one
  key, and then once; when every key validates, and so when there is no key, nothing is
  written.
\<close>

theorem env_written_only_after_eviction:
  assumes "getAllKeysStatus km pool = Inr keys"
    and "performHealthCheck km ax J S readEnv pool = Inr (pool', tr)"
  shows "(writes tr \<noteq> []) = (evictions tr \<noteq> []) \<and> length (writes tr) \<le> 1 \<and>
         ((\<forall>k\<in>set keys. fst (validateKey ax (subscriptionId k))) \<longrightarrow> writes tr = [])"
proof -
  from assms obtain tr0 cl env' where
    tr: "tr = tr0 @ (if cl \<noteq> [] then [WriteEnv env'] else [])"
    and p: "probes tr0 = map subscriptionId keys"
    and d: "delete_calls tr0 = filter (\<lambda>sid. \<not> probe_ok (ax sid)) (map subscriptionId keys)"
    and e: "evictions tr0 = cl" and w: "writes tr0 = []"
    by (rule performHealthCheck_trace)
  have sub: "set (evictions t) \<subseteq> set (delete_calls t)" for t
  proof (induction t)
    case Nil show ?case by simp
  next
    case (Cons a t)
    then show ?case by (cases a rule: eviction_of.cases) auto
  qed
  have 1: "(writes tr \<noteq> []) = (evictions tr \<noteq> [])" using tr e w by auto
  have 2: "length (writes tr) \<le> 1" using tr w by auto
  have 3: "writes tr = []" if "\<forall>k\<in>set keys. fst (validateKey ax (subscriptionId k))"
  proof -
    from that have "delete_calls tr0 = []" unfolding d by (auto simp: validateKey_ok filter_empty_conv)
    with sub [of tr0] e have "cl = []" by auto
    with tr w show ?thesis by simp
  qed
  from 1 2 3 show ?thesis by blast
qed

text \<open>C10 at a cycle that evicts \<open>k2\<close> and keeps \<open>k3\<close>.\<close>

theorem env_written_only_after_eviction_witness:
  "getAllKeysStatus (stub_keyManager [example_key ''k2'' ''pro'', example_key ''k3'' ''pro''] False) () =
     Inr [example_key ''k2'' ''pro'', example_key ''k3'' ''pro''] \<and>
   performHealthCheck (stub_keyManager [example_key ''k2'' ''pro'', example_key ''k3'' ''pro''] False)
     example_axios (\<lambda>s. None) (\<lambda>v. []) (Some ''MAILTESTER_KEYS=k2,k3'') () =
     Inr ((), [Probe ''k2'', DeleteKey ''k2'' Returned,
               Log Warn ''HealthChecker: removed inactive key'' ''k2'', Probe ''k3'',
               WriteEnv ''MAILTESTER_KEYS=k3'']) \<and>
   writes [Probe ''k2'', DeleteKey ''k2'' Returned,
           Log Warn ''HealthChecker: removed inactive key'' ''k2'', Probe ''k3'',
           WriteEnv ''MAILTESTER_KEYS=k3''] = [''MAILTESTER_KEYS=k3''] \<and>
   evictions [Probe ''k2'', DeleteKey ''k2'' Returned,
           Log Warn ''HealthChecker: removed inactive key'' ''k2'', Probe ''k3'',
           WriteEnv ''MAILTESTER_KEYS=k3''] = [''k2'']"
proof -
  let ?keys = "[example_key ''k2'' ''pro'', example_key ''k3'' ''pro'']"
  let ?km = "stub_keyManager ?keys False"
  let ?tr = "[Probe ''k2'', DeleteKey ''k2'' Returned,
               Log Warn ''HealthChecker: removed inactive key'' ''k2'', Probe ''k3'',
               WriteEnv ''MAILTESTER_KEYS=k3'']"
  have g: "getAllKeysStatus ?km () = Inr ?keys" by (simp add: stub_keyManager_def)
  have r: "performHealthCheck ?km example_axios (\<lambda>s. None) (\<lambda>v. []) (Some ''MAILTESTER_KEYS=k2,k3'') () = Inr ((), ?tr)"
    by (simp add: run_defs)
  from env_written_only_after_eviction [OF g r] have "(writes ?tr \<noteq> []) = (evictions ?tr \<noteq> [])" by blast
  moreover have "writes ?tr = [''MAILTESTER_KEYS=k3'']" "evictions ?tr = [''k2'']" by simp_all
  ultimately show ?thesis using g r by blast
qed

section \<open>Properties of the router\<close>

subsection \<open>C7: the reply of \<open>GET /key/available\<close>\<close>

text \<open>
  C7: when the snapshot is empty the reply is \<open>{status: "wait", keys: []}\<close>; otherwise it
  is \<open>{status: "ok", keys}\<close> with the keys of the snapshot in order, each carrying
  \<open>nextRequestInMs = max(nextRequestAllowedAt - now, 0)\<close>. A key without the field is
  treated as allowed at time 0.
\<close>

theorem key_available_reply:
  assumes "getAvailableKeysSnapshot km pool = Inr keys"
  shows "(if keys = [] then get_key_available km now pool = (200, Available ''wait'' [])
          else \<exists>payload.
                 get_key_available km now pool = (200, Available ''ok'' payload) \<and>
                 map fst payload = keys \<and>
                 (\<forall>e\<in>set payload.
                    \<forall>t. nextRequestAllowedAt (fst e) = Some t \<longrightarrow> snd e = max (t - now) 0) \<and>
                 (\<forall>e\<in>set payload.
                    nextRequestAllowedAt (fst e) = None \<longrightarrow> snd e = max (0 - now) 0))"
proof (cases "keys = []")
  case True
  with assms show ?thesis by (simp add: get_key_available_def)
next
  case False
  let ?payload = "map (\<lambda>k. (k, max ((case nextRequestAllowedAt k of None \<Rightarrow> 0
                                        | Some t \<Rightarrow> if t \<noteq> 0 then t else 0) - now) 0)) keys"
  from assms False have "get_key_available km now pool = (200, Available ''ok'' ?payload)"
    by (simp add: get_key_available_def)
  moreover have "map fst ?payload = keys" by (simp add: comp_def)
  moreover have "\<forall>e\<in>set ?payload.
      \<forall>t. nextRequestAllowedAt (fst e) = Some t \<longrightarrow> snd e = max (t - now) 0"
    by auto
  moreover have "\<forall>e\<in>set ?payload.
      nextRequestAllowedAt (fst e) = None \<longrightarrow> snd e = max (0 - now) 0"
    by auto
  ultimately show ?thesis using False by (simp only: if_False) blast
qed

text \<open>C7 at time 1000 with one key allowed at 1500 and one at 900, and with no key.\<close>

theorem key_available_reply_witness:
  "getAvailableKeysSnapshot (stub_keyManager example_keys False) () = Inr example_keys \<and>
   get_key_available (stub_keyManager example_keys False) 1000 () =
     (200, Available ''ok''
        [((example_key ''k1'' ''pro'')\<lparr>nextRequestAllowedAt := Some 1500\<rparr>, 500),
         ((example_key ''k2'' ''ultimate'')\<lparr>nextRequestAllowedAt := Some 900\<rparr>, 0)]) \<and>
   getAvailableKeysSnapshot (stub_keyManager [] False) () = Inr [] \<and>
   get_key_available (stub_keyManager [] False) 1000 () = (200, Available ''wait'' [])"
proof -
  have g: "getAvailableKeysSnapshot (stub_keyManager example_keys False) () = Inr example_keys"
    by (simp add: stub_keyManager_def)
  have g0: "getAvailableKeysSnapshot (stub_keyManager [] False) () = Inr []"
    by (simp add: stub_keyManager_def)
  from key_available_reply [OF g0, of 1000]
  have w: "get_key_available (stub_keyManager [] False) 1000 () = (200, Available ''wait'' [])"
    by simp
  have "get_key_available (stub_keyManager example_keys False) 1000 () =
     (200, Available ''ok''
        [((example_key ''k1'' ''pro'')\<lparr>nextRequestAllowedAt := Some 1500\<rparr>, 500),
         ((example_key ''k2'' ''ultimate'')\<lparr>nextRequestAllowedAt := Some 900\<rparr>, 0)])"
    by (simp add: get_key_available_def stub_keyManager_def example_keys_def example_key_def)
  with g g0 w show ?thesis by blast
qed

subsection \<open>C6: deletion is always reported as success\<close>

text \<open>
  C6, on the key manager of the specification: for every id (a route parameter is never
  empty) \<open>DELETE /keys/:id\<close> replies 200 with \<open>Key <id> deleted\<close>, whether the pool knows
  the id or not; a second deletion gives the same reply and leaves the pool as the first
  left it; an unknown id leaves the pool unchanged. The route itself, on any key manager,
  reports success whenever \<open>deleteKey\<close> returns, and has no reply for an unknown id.
\<close>

theorem delete_always_succeeds:
  assumes "ident \<noteq> []"
  shows "\<exists>pool'.
           delete_keys_id (spec_keyManager now) ident pool =
             ((200, Message (''Key '' @ ident @ '' deleted'')), pool') \<and>
           delete_keys_id (spec_keyManager now) ident pool' =
             ((200, Message (''Key '' @ ident @ '' deleted'')), pool') \<and>
           ident \<notin> set (map subscriptionId pool') \<and>
           (if ident \<in> set (map subscriptionId pool)
            then pool' = filter (\<lambda>k. subscriptionId k \<noteq> ident) pool else pool' = pool) \<and>
           (\<forall>q'. deleteKey km ident q = Inr q' \<longrightarrow>
              delete_keys_id km ident q = ((200, Message (''Key '' @ ident @ '' deleted'')), q'))"
proof -
  let ?p = "filter (\<lambda>k. subscriptionId k \<noteq> ident) pool"
  have d: "deleteKey (spec_keyManager now) ident q = Inr (filter (\<lambda>k. subscriptionId k \<noteq> ident) q)" for q
    by (simp add: spec_keyManager_def spec_deleteKey_def)
  have 1: "delete_keys_id (spec_keyManager now) ident pool =
             ((200, Message (''Key '' @ ident @ '' deleted'')), ?p)"
    using assms by (simp add: delete_keys_id_def d)
  have 2: "delete_keys_id (spec_keyManager now) ident ?p =
             ((200, Message (''Key '' @ ident @ '' deleted'')), ?p)"
    using assms by (simp add: delete_keys_id_def d)
  have 3: "ident \<notin> set (map subscriptionId ?p)" by auto
  have 4: "ident \<notin> set (map subscriptionId pool) \<Longrightarrow> ?p = pool"
    by (induction pool) auto
  have 5: "\<forall>q'. deleteKey km ident q = Inr q' \<longrightarrow>
              delete_keys_id km ident q = ((200, Message (''Key '' @ ident @ '' deleted'')), q')"
    using assms by (simp add: delete_keys_id_def)
  from 1 2 3 4 5 show ?thesis by (intro exI [of _ ?p]) simp
qed

text \<open>C6 at the id \<open>abc\<close>, deleted twice.\<close>

theorem delete_always_succeeds_witness:
  "''abc'' \<noteq> [] \<and>
   delete_keys_id (spec_keyManager 0) ''abc'' [example_key ''abc'' ''pro'', example_key ''k2'' ''pro''] =
     ((200, Message ''Key abc deleted''), [example_key ''k2'' ''pro'']) \<and>
   delete_keys_id (spec_keyManager 0) ''abc'' [example_key ''k2'' ''pro''] =
     ((200, Message ''Key abc deleted''), [example_key ''k2'' ''pro''])"
proof -
  have ne: "''abc'' \<noteq> []" by simp
  from delete_always_succeeds
         [OF ne, of 0 "[example_key ''abc'' ''pro'', example_key ''k2'' ''pro'']"
            "stub_keyManager [] True" "()"]
  show ?thesis by (simp add: example_key_def)
qed

section \<open>Properties of the env-file editing\<close>

text \<open>
  An index in the map of a parsed file is the index of one of its lines, and the loop
  over the priority keys is a search for the first variable that \<open>rewritten\<close> changes.
  No line of a parsed file holds a line feed, and neither does a rewritten value, so
  cutting the joined lines at the line feeds gives the lines back.
\<close>

lemma build_map_index:
  "build_map ls n m0 name = Some (v, idx) \<Longrightarrow>
   m0 name = Some (v, idx) \<or> (n \<le> idx \<and> idx < n + length ls)"
proof (induction ls arbitrary: n m0)
  case Nil
  then show ?case by simp
next
  case (Cons l ls)
  from Cons.prems have
    "build_map ls (Suc n) (case match_line l of Some (k, w) \<Rightarrow> m0(k \<mapsto> (w, n)) | None \<Rightarrow> m0) name
       = Some (v, idx)"
    by simp
  from Cons.IH [OF this] show ?case
    by (auto split: option.splits if_splits)
qed

lemma parseEnvLines_index:
  "snd (parseEnvLines content) name = Some (v, idx) \<Longrightarrow> idx < length (fst (parseEnvLines content))"
  using build_map_index [of "split_lines content" 0 Map.empty name v idx]
  by (simp add: parseEnvLines_def Let_def)

lemma remove_loop_find:
  "remove_loop J S ks (ls, m) ident =
     (case find (\<lambda>k. rewritten J S m ident k \<noteq> None) ks of
        None \<Rightarrow> ((ls, m), False)
      | Some k \<Rightarrow> (updateEnvVariable (ls, m) k (the (rewritten J S m ident k)), True))"
proof (induction ks)
  case Nil
  show ?case by simp
next
  case (Cons k ks)
  show ?case
  proof (cases "rewritten J S m ident k")
    case None
    then have "remove_loop J S (k # ks) (ls, m) ident = remove_loop J S ks (ls, m) ident"
      by (auto simp: rewritten_def Let_def split: option.splits if_splits)
    with None Cons.IH show ?thesis by simp
  next
    case (Some u)
    then have "remove_loop J S (k # ks) (ls, m) ident = (updateEnvVariable (ls, m) k u, True)"
      by (auto simp: rewritten_def Let_def split: option.splits if_splits)
    with Some show ?thesis by simp
  qed
qed

lemma split_no_sep: "c \<notin> set x \<Longrightarrow> split c x = [x]"
  by (induction x) (auto simp: Let_def)

lemma split_append_sep: "c \<notin> set x \<Longrightarrow> split c (x @ c # rest) = x # split c rest"
  by (induction x) (auto simp: Let_def)

lemma split_join:
  "ls \<noteq> [] \<Longrightarrow> \<forall>l\<in>set ls. c \<notin> set l \<Longrightarrow> split c (join [c] ls) = ls"
proof (induction "[c]" ls rule: join.induct)
  case 1
  then show ?case by simp
next
  case (2 x)
  then show ?case by (simp add: split_no_sep)
next
  case (3 x y ys)
  then show ?case by (simp add: split_append_sep)
qed

lemma split_piece_no_sep: "p \<in> set (split c s) \<Longrightarrow> c \<notin> set p"
proof (induction s arbitrary: p)
  case Nil
  then show ?case by simp
next
  case (Cons x xs)
  obtain h t where ht: "split c xs = h # t"
    using split_ne [of c xs] by (cases "split c xs") auto
  from Cons.IH [of h] ht have h: "c \<notin> set h" by simp
  from Cons.IH ht have t: "\<And>q. q \<in> set t \<Longrightarrow> c \<notin> set q" by simp
  from Cons.prems ht have "p = [] \<or> p = h \<or> (x \<noteq> c \<and> p = x # h) \<or> p \<in> set t"
    by (auto simp: Let_def split: if_splits)
  with h t show ?case by auto
qed

lemma strip_cr_set: "set (strip_cr s) \<subseteq> set s"
  by (auto simp: strip_cr_def dest: in_set_butlastD)

lemma split_lines_no_lf: "l \<in> set (split_lines content) \<Longrightarrow> CHR 0x0A \<notin> set l"
proof -
  assume l: "l \<in> set (split_lines content)"
  let ?ps = "split CHR 0x0A content"
  have ne: "?ps \<noteq> []" by (rule split_ne)
  from l have "l = last ?ps \<or> (\<exists>p\<in>set (butlast ?ps). l = strip_cr p)"
    by (auto simp: split_lines_def Let_def)
  then obtain p where "p \<in> set ?ps" and "set l \<subseteq> set p"
    using ne strip_cr_set by (metis in_set_butlastD last_in_set order_refl)
  with split_piece_no_sep [of p "CHR 0x0A" content] show ?thesis by auto
qed

lemma split_lines_ne: "split_lines content \<noteq> []"
  by (simp add: split_lines_def Let_def)

lemma split_lines_no_cr:
  assumes "CHR 0x0D \<notin> set content"
  shows "split_lines content = split CHR 0x0A content"
proof -
  let ?ps = "split CHR 0x0A content"
  have "strip_cr p = p" if "p \<in> set ?ps" for p
  proof -
    from split_set [OF that] assms have "CHR 0x0D \<notin> set p" by auto
    then show ?thesis by (metis last_in_set strip_cr_def)
  qed
  then have "map strip_cr (butlast ?ps) = butlast ?ps"
    by (simp add: map_idI in_set_butlastD)
  then show ?thesis using split_ne [of "CHR 0x0A" content]
    by (simp add: split_lines_def Let_def)
qed

lemma join_set: "set (join sep xs) \<subseteq> set sep \<union> \<Union> (set ` set xs)"
  by (induction sep xs rule: join.induct) auto

lemma trim_set: "set (trim s) \<subseteq> set s"
proof -
  have "set (dropWhile P xs) \<subseteq> set xs" for P and xs :: string
    by (auto dest: set_dropWhileD)
  then show ?thesis unfolding trim_def
    by (metis (no_types, lifting) set_rev subset_trans)
qed

lemma split_entries_set: "p \<in> set (split_entries v) \<Longrightarrow> set p \<subseteq> set v"
  using split_set trim_set by (fastforce simp: split_entries_def)

lemma match_line_no_lf: "match_line line = Some (name, v) \<Longrightarrow> CHR 0x0A \<notin> set v"
  by (auto simp: match_line_def Let_def list_ex_iff is_line_terminator_def
           split: if_splits list.splits)

lemma build_map_value:
  "build_map ls n m0 name = Some (v, idx) \<Longrightarrow>
   m0 name = Some (v, idx) \<or> (\<exists>line\<in>set ls. match_line line = Some (name, v))"
proof (induction ls arbitrary: n m0)
  case Nil
  then show ?case by simp
next
  case (Cons l ls)
  from Cons.prems have
    "build_map ls (Suc n) (case match_line l of Some (k, w) \<Rightarrow> m0(k \<mapsto> (w, n)) | None \<Rightarrow> m0) name
       = Some (v, idx)"
    by simp
  from Cons.IH [OF this] show ?case
    by (auto split: option.splits if_splits)
qed

lemma parseEnvLines_value_no_lf:
  "snd (parseEnvLines content) name = Some (v, idx) \<Longrightarrow> CHR 0x0A \<notin> set v"
  using build_map_value [of "split_lines content" 0 Map.empty name v idx] match_line_no_lf
  by (auto simp: parseEnvLines_def Let_def)

lemma removal_no_lf:
  assumes "CHR 0x0A \<notin> set old"
  shows "CHR 0x0A \<notin> set (removeIdFromCsv old ident)"
    and "CHR 0x0A \<notin> set (removeIdFromList old ident)"
proof -
  have "CHR 0x0A \<notin> set (join '','' (filter P (split_entries old)))" for P
  proof
    assume "CHR 0x0A \<in> set (join '','' (filter P (split_entries old)))"
    with join_set [of "'',''" "filter P (split_entries old)"]
    obtain p where "p \<in> set (split_entries old)" "CHR 0x0A \<in> set p" by auto
    with split_entries_set [of p old] assms show False by auto
  qed
  then show "CHR 0x0A \<notin> set (removeIdFromCsv old ident)"
    and "CHR 0x0A \<notin> set (removeIdFromList old ident)"
    by (simp_all add: removeIdFromCsv_def removeIdFromList_def)
qed

lemma rewritten_no_lf:
  assumes "\<forall>v. CHR 0x0A \<notin> set (S v)"
    and "rewritten J S (snd (parseEnvLines content)) ident k = Some u"
  shows "CHR 0x0A \<notin> set u"
proof -
  from assms(2) obtain v idx where e: "snd (parseEnvLines content) k = Some (v, idx)"
    by (cases "snd (parseEnvLines content) k") (auto simp: rewritten_def)
  from parseEnvLines_value_no_lf [OF e] trim_set [of v]
  have old: "CHR 0x0A \<notin> set (sanitizeValue v)"
    by (auto simp: sanitizeValue_def)
  have json: "CHR 0x0A \<notin> set (removeIdFromJson J S (sanitizeValue v) ident)"
    using old assms(1) by (auto simp: removeIdFromJson_def Let_def split: option.splits json.splits)
  from assms(2) e have "u = removeIdFromJson J S (sanitizeValue v) ident \<or>
                        u = removeIdFromCsv (sanitizeValue v) ident \<or>
                        u = removeIdFromList (sanitizeValue v) ident \<or> u = sanitizeValue v"
    by (auto simp: rewritten_def Let_def split: if_splits)
  with old json removal_no_lf [OF old] show ?thesis by auto
qed

lemma priorityKeys_no_lf: "k \<in> set priorityKeys \<Longrightarrow> CHR 0x0A \<notin> set k"
  by (auto simp: priorityKeys_def)

lemma find_in_set: "find P xs = Some x \<Longrightarrow> x \<in> set xs"
  by (auto simp: find_Some_iff)

lemma remove_result:
  "removeSubscriptionFromEnv J S content ident =
     (case find (\<lambda>k. rewritten J S (snd (parseEnvLines content)) ident k \<noteq> None) priorityKeys of
        None \<Rightarrow> (join [CHR 0x0A] (split_lines content), False)
      | Some k \<Rightarrow>
          (join [CHR 0x0A]
             ((split_lines content)
                [snd (the (snd (parseEnvLines content) k)) :=
                   k @ ''='' @ the (rewritten J S (snd (parseEnvLines content)) ident k)]),
           True))"
proof -
  let ?ls = "split_lines content"
  let ?m = "snd (parseEnvLines content)"
  have fp: "fst (parseEnvLines content) = ?ls" by (simp add: parseEnvLines_def Let_def)
  have p: "(?ls, ?m) = parseEnvLines content" by (simp add: fp [symmetric])
  have r: "removeSubscriptionFromEnv J S content ident =
      (join [CHR 0x0A] (fst (fst (remove_loop J S priorityKeys (?ls, ?m) ident))),
       snd (remove_loop J S priorityKeys (?ls, ?m) ident))"
    unfolding removeSubscriptionFromEnv_def Let_def stringifyEnv_def p ..
  show ?thesis
  proof (cases "find (\<lambda>k. rewritten J S ?m ident k \<noteq> None) priorityKeys")
    case None
    have "remove_loop J S priorityKeys (?ls, ?m) ident = ((?ls, ?m), False)"
      by (simp only: remove_loop_find None option.case)
    then show ?thesis by (simp only: r fst_conv snd_conv None option.case)
  next
    case (Some k)
    then have "rewritten J S ?m ident k \<noteq> None" by (auto simp: find_Some_iff)
    then obtain u where u: "rewritten J S ?m ident k = Some u" by auto
    then obtain v idx where e: "?m k = Some (v, idx)"
      by (cases "?m k") (auto simp: rewritten_def)
    have "remove_loop J S priorityKeys (?ls, ?m) ident = (updateEnvVariable (?ls, ?m) k u, True)"
      by (simp only: remove_loop_find Some u option.case option.sel)
    moreover have "fst (updateEnvVariable (?ls, ?m) k u) = ?ls[idx := k @ ''='' @ u]"
      by (simp only: updateEnvVariable_def e snd_conv fst_conv option.case)
    ultimately show ?thesis
      by (simp only: r fst_conv snd_conv Some option.case u e option.sel)
  qed
qed

subsection \<open>C9: an eviction rewrites at most one line\<close>

text \<open>The definitions a concrete edit of an env file unfolds.\<close>

lemmas env_defs = removeSubscriptionFromEnv_def parseEnvLines_def split_lines_def
  strip_cr_def match_line_def is_space_def is_name_char_def is_line_terminator_def
  stringifyEnv_def sanitizeValue_def trim_def removeIdFromJson_def removeIdFromCsv_def
  removeIdFromList_def updateEnvVariable_def priorityKeys_def split_entries_def Let_def
  rewritten_def example_content_def example_crlf_def

text \<open>
  C9 says that every other line is left character for character unchanged in the
  result. In a file with CRLF line endings the line \<open>A=1\<close>, which sets no key variable,
  comes back without its carriage return: the file starts with \<open>A=1\<close>, CR, LF and the
  result with \<open>A=1\<close>, LF, \<open>M\<close>.
\<close>

theorem crlf_line_endings_rewritten:
  "removeSubscriptionFromEnv (\<lambda>s. None) (\<lambda>v. []) example_crlf ''k1'' =
     (''A=1'' @ [CHR 0x0A] @ ''MAILTESTER_KEYS=k2'', True) \<and>
   take 5 example_crlf = ''A=1'' @ [CHR 0x0D, CHR 0x0A] \<and>
   take 5 (fst (removeSubscriptionFromEnv (\<lambda>s. None) (\<lambda>v. []) example_crlf ''k1'')) =
     ''A=1'' @ [CHR 0x0A] @ ''M''"
  by (simp add: env_defs)

text \<open>
  C9, as amended: \<open>removeSubscriptionFromEnv\<close> takes the first of \<open>MAILTESTER_KEYS_JSON\<close>,
  \<open>MAILTESTER_KEYS_WITH_PLAN\<close> and \<open>MAILTESTER_KEYS\<close> whose value changes when the id is
  removed. The text it returns is the lines of the file joined by line feeds, and cut at
  the line feeds it gives these lines back: all of them when no variable changes
  (\<open>modified\<close> is false), and otherwise all but the last line that sets this variable,
  which is replaced by \<open>name=value\<close> (\<open>modified\<close> is true); a later variable that holds
  the id keeps its line. The lines of the file are those of \<open>split_lines\<close>, which drops
  the carriage return of a CRLF line ending: they are the lines as the file has them,
  character for character, when the file has no carriage return. \<open>JSON.stringify\<close> is
  taken to return no line feed, as it does without an indent.
\<close>

theorem remove_rewrites_one_line:
  assumes "\<forall>v. CHR 0x0A \<notin> set (S v)"
  shows "(case find (\<lambda>k. rewritten J S (snd (parseEnvLines content)) ident k \<noteq> None) priorityKeys of
            None \<Rightarrow>
              removeSubscriptionFromEnv J S content ident =
                (join [CHR 0x0A] (split_lines content), False) \<and>
              split CHR 0x0A (fst (removeSubscriptionFromEnv J S content ident)) =
                split_lines content
          | Some k \<Rightarrow>
              (\<exists>v idx u.
                 snd (parseEnvLines content) k = Some (v, idx) \<and>
                 idx < length (split_lines content) \<and>
                 rewritten J S (snd (parseEnvLines content)) ident k = Some u \<and>
                 removeSubscriptionFromEnv J S content ident =
                   (join [CHR 0x0A] ((split_lines content)[idx := k @ ''='' @ u]), True) \<and>
                 split CHR 0x0A (fst (removeSubscriptionFromEnv J S content ident)) =
                   (split_lines content)[idx := k @ ''='' @ u])) \<and>
         (CHR 0x0D \<notin> set content \<longrightarrow> split_lines content = split CHR 0x0A content)"
proof -
  let ?ls = "split_lines content"
  let ?m = "snd (parseEnvLines content)"
  have fp: "fst (parseEnvLines content) = ?ls" by (simp add: parseEnvLines_def Let_def)
  have lines: "\<forall>l\<in>set ?ls. CHR 0x0A \<notin> set l" using split_lines_no_lf by blast
  have cr: "CHR 0x0D \<notin> set content \<longrightarrow> ?ls = split CHR 0x0A content"
    using split_lines_no_cr [of content] by simp
  show ?thesis
  proof (cases "find (\<lambda>k. rewritten J S ?m ident k \<noteq> None) priorityKeys")
    case None
    have res: "removeSubscriptionFromEnv J S content ident = (join [CHR 0x0A] ?ls, False)"
      by (simp only: remove_result None option.case)
    have "split CHR 0x0A (join [CHR 0x0A] ?ls) = ?ls"
      by (rule split_join [OF split_lines_ne lines])
    with res cr show ?thesis by (simp only: None option.case fst_conv; simp)
  next
    case (Some k)
    then have "rewritten J S ?m ident k \<noteq> None" by (auto simp: find_Some_iff)
    then obtain u where u: "rewritten J S ?m ident k = Some u" by auto
    then obtain v idx where e: "?m k = Some (v, idx)"
      by (cases "?m k") (auto simp: rewritten_def)
    from parseEnvLines_index [OF e] have i: "idx < length ?ls" by (simp only: fp)
    have res: "removeSubscriptionFromEnv J S content ident =
                 (join [CHR 0x0A] (?ls[idx := k @ ''='' @ u]), True)"
      by (simp only: remove_result Some option.case u e option.sel snd_conv)
    have k: "CHR 0x0A \<notin> set k"
      using find_in_set [OF Some] by (rule priorityKeys_no_lf)
    from rewritten_no_lf [OF assms u] k have new: "CHR 0x0A \<notin> set (k @ ''='' @ u)" by simp
    have all: "\<forall>l\<in>set (?ls[idx := k @ ''='' @ u]). CHR 0x0A \<notin> set l"
      using lines new by (auto dest!: set_update_subset_insert [THEN subsetD])
    have ne: "?ls[idx := k @ ''='' @ u] \<noteq> []" using split_lines_ne [of content] by simp
    have sp: "split CHR 0x0A (fst (removeSubscriptionFromEnv J S content ident)) =
                ?ls[idx := k @ ''='' @ u]"
      unfolding res fst_conv by (rule split_join [OF ne all])
    from e i u res sp have "\<exists>v idx u.
                 ?m k = Some (v, idx) \<and> idx < length ?ls \<and>
                 rewritten J S ?m ident k = Some u \<and>
                 removeSubscriptionFromEnv J S content ident =
                   (join [CHR 0x0A] (?ls[idx := k @ ''='' @ u]), True) \<and>
                 split CHR 0x0A (fst (removeSubscriptionFromEnv J S content ident)) =
                   ?ls[idx := k @ ''='' @ u]"
      by blast
    with cr show ?thesis by (simp only: Some option.case; simp)
  qed
qed

text \<open>
  The amended C9 at the example, a file without carriage returns: \<open>k1\<close> leaves the pairs
  and stays among the bare ids, and the other two lines are as they were.
\<close>

theorem remove_rewrites_one_line_witness:
  "(\<forall>v::json. CHR 0x0A \<notin> set ([]::string)) \<and>
   find (\<lambda>k. rewritten (\<lambda>s. None) (\<lambda>v. []) (snd (parseEnvLines example_content)) ''k1'' k \<noteq> None)
     priorityKeys = Some ''MAILTESTER_KEYS_WITH_PLAN'' \<and>
   CHR 0x0D \<notin> set example_content \<and>
   split CHR 0x0A example_content =
     [''PORT=3000'', ''MAILTESTER_KEYS_WITH_PLAN=k1:pro,k2:pro'', ''MAILTESTER_KEYS=k1,k3''] \<and>
   split CHR 0x0A (fst (removeSubscriptionFromEnv (\<lambda>s. None) (\<lambda>v. []) example_content ''k1'')) =
     [''PORT=3000'', ''MAILTESTER_KEYS_WITH_PLAN=k2:pro'', ''MAILTESTER_KEYS=k1,k3''] \<and>
   snd (removeSubscriptionFromEnv (\<lambda>s. None) (\<lambda>v. []) example_content ''k1'')"
proof -
  have h: "\<forall>v::json. CHR 0x0A \<notin> set ([]::string)" by simp
  have c: "CHR 0x0D \<notin> set example_content" by (simp add: example_content_def)
  have f: "find (\<lambda>k. rewritten (\<lambda>s. None) (\<lambda>v. []) (snd (parseEnvLines example_content)) ''k1'' k \<noteq> None)
     priorityKeys = Some ''MAILTESTER_KEYS_WITH_PLAN''"
    by (simp add: env_defs)
  have l: "split_lines example_content =
     [''PORT=3000'', ''MAILTESTER_KEYS_WITH_PLAN=k1:pro,k2:pro'', ''MAILTESTER_KEYS=k1,k3'']"
    by (simp add: env_defs)
  have m: "snd (parseEnvLines example_content) ''MAILTESTER_KEYS_WITH_PLAN'' = Some (''k1:pro,k2:pro'', 1)"
    by (simp add: env_defs)
  have u: "rewritten (\<lambda>s. None) (\<lambda>v. []) (snd (parseEnvLines example_content)) ''k1''
             ''MAILTESTER_KEYS_WITH_PLAN'' = Some ''k2:pro''"
    by (simp add: env_defs)
  from remove_rewrites_one_line [of "\<lambda>v. []" "\<lambda>s. None" example_content "''k1''"]
  have "split CHR 0x0A (fst (removeSubscriptionFromEnv (\<lambda>s. None) (\<lambda>v. []) example_content ''k1'')) =
          [''PORT=3000'', ''MAILTESTER_KEYS_WITH_PLAN=k2:pro'', ''MAILTESTER_KEYS=k1,k3''] \<and>
        snd (removeSubscriptionFromEnv (\<lambda>s. None) (\<lambda>v. []) example_content ''k1'') \<and>
        split CHR 0x0A example_content = split_lines example_content"
    unfolding f option.case m u l using c by auto
  with h f l c show ?thesis by simp
qed

section \<open>Properties of the watcher\<close>

text \<open>
  A \<open>Map\<close> built from entries looks a key up as the reversed entry list does, has the keys
  of the entries, each once, and holds only entries it was given. The calls of the two
  loops do not depend on what the key manager answers. On the key manager of the
  specification the first loop leaves the pool holding the desired plans and the second
  removes what is not desired.
\<close>

lemma register_calls_simps [simp]:
  "register_calls [] = []"
  "register_calls (e # es) = register_call_of e @ register_calls es"
  "register_calls (a @ b) = register_calls a @ register_calls b"
  by (simp_all add: register_calls_def)

lemma map_of_Map_set: "map_of (Map_set m k v) = (map_of m)(k \<mapsto> v)"
  by (induction m k v rule: Map_set.induct) auto

lemma keys_Map_set: "fst ` set (Map_set m k v) = insert k (fst ` set m)"
  by (induction m k v rule: Map_set.induct) auto

lemma distinct_Map_set: "distinct (map fst m) \<Longrightarrow> distinct (map fst (Map_set m k v))"
proof (induction m k v rule: Map_set.induct)
  case (1 k v)
  then show ?case by simp
next
  case (2 k' v' m k v)
  then show ?case using keys_Map_set [of m k v] by auto
qed

lemma in_Map_set: "e \<in> set (Map_set m k v) \<Longrightarrow> e = (k, v) \<or> e \<in> set m"
  by (induction m k v rule: Map_set.induct) (auto split: if_splits)

lemma fold_Map_set_map_of:
  "map_of (fold (\<lambda>e m. Map_set m (fst e) (snd e)) es m0) = map_of m0 ++ map_of (rev es)"
proof (induction es arbitrary: m0)
  case Nil
  show ?case by simp
next
  case (Cons e es)
  have "map_of (Map_set m0 (fst e) (snd e)) ++ map_of (rev es) =
        map_of m0 ++ map_of (rev (e # es))"
    by (rule ext) (auto simp: map_of_Map_set map_add_def split: option.splits)
  with Cons.IH [of "Map_set m0 (fst e) (snd e)"] show ?case by simp
qed

lemma fold_Map_set_keys:
  "fst ` set (fold (\<lambda>e m. Map_set m (fst e) (snd e)) es m0) = fst ` set m0 \<union> fst ` set es"
  by (induction es arbitrary: m0) (auto simp: keys_Map_set)

lemma fold_Map_set_distinct:
  "distinct (map fst m0) \<Longrightarrow> distinct (map fst (fold (\<lambda>e m. Map_set m (fst e) (snd e)) es m0))"
  by (induction es arbitrary: m0) (auto simp: distinct_Map_set)

lemma fold_Map_set_subset:
  "set (fold (\<lambda>e m. Map_set m (fst e) (snd e)) es m0) \<subseteq> set m0 \<union> set es"
proof (induction es arbitrary: m0)
  case Nil
  show ?case by simp
next
  case (Cons e es)
  have "set (Map_set m0 (fst e) (snd e)) \<subseteq> insert e (set m0)"
    using in_Map_set [of _ m0 "fst e" "snd e"] by auto
  with Cons.IH [of "Map_set m0 (fst e) (snd e)"] show ?case by auto
qed

lemma Map_of_entries_props:
  "map_of (Map_of_entries es) = map_of (rev es)"
  "fst ` set (Map_of_entries es) = fst ` set es"
  "distinct (map fst (Map_of_entries es))"
  "set (Map_of_entries es) \<subseteq> set es"
  using fold_Map_set_map_of [of es "[]"] fold_Map_set_keys [of es "[]"]
    fold_Map_set_distinct [of "[]" es] fold_Map_set_subset [of es "[]"]
  by (simp_all add: Map_of_entries_def)

lemma register_loop_calls:
  "register_calls (snd (register_loop km eM entries (pool, tr))) =
     register_calls tr @
     filter (\<lambda>e. \<not> (map_of eM (fst e) = Some (snd e) \<and> snd e \<noteq> [])) entries \<and>
   delete_calls (snd (register_loop km eM entries (pool, tr))) = delete_calls tr"
proof (induction entries arbitrary: pool tr)
  case Nil
  show ?case by simp
next
  case (Cons e entries)
  obtain sid pln where e: "e = (sid, pln)" by (cases e)
  show ?case unfolding e
    by (cases "registerKey km sid pln pool") (auto simp: Cons.IH split: option.splits)
qed

lemma delete_loop_calls:
  "delete_calls (snd (delete_loop km dM sids (pool, tr))) =
     delete_calls tr @ filter (\<lambda>sid. map_of dM sid = None) sids \<and>
   register_calls (snd (delete_loop km dM sids (pool, tr))) = register_calls tr"
proof (induction sids arbitrary: pool tr)
  case Nil
  show ?case by simp
next
  case (Cons sid sids)
  show ?case
    by (cases "deleteKey km sid pool") (auto simp: Cons.IH)
qed

lemma plans_dom: "dom (plans pool) = subscriptionId ` set pool"
  by (auto simp: plans_def dom_map_of_conv_image_fst image_iff)

lemma map_of_replace:
  "map_of (map (\<lambda>e. if fst e = sid then (fst e, pln) else e) xs) =
     (\<lambda>k. if k = sid \<and> k \<in> fst ` set xs then Some pln else map_of xs k)"
  by (induction xs) (auto simp: fun_eq_iff)

lemma map_of_remove:
  "map_of (filter (\<lambda>e. fst e \<noteq> sid) xs) = (map_of xs)(sid := None)"
  by (induction xs) (auto simp: fun_eq_iff)

lemma spec_registerKey_plans:
  assumes "pln = ''pro'' \<or> pln = ''ultimate''"
  shows "\<exists>pool'. spec_registerKey now sid pln pool = Inr pool' \<and>
           plans pool' = (plans pool)(sid \<mapsto> pln)"
proof (cases "sid \<in> set (map subscriptionId pool)")
  case True
  let ?idp = "\<lambda>entry. (subscriptionId entry, plan entry)"
  let ?R = "\<lambda>e. if fst e = sid then (fst e, pln) else e"
  let ?p = "map (\<lambda>k. if subscriptionId k = sid then k\<lparr>plan := pln\<rparr> else k) pool"
  have a: "map ?idp ?p = map ?R (map ?idp pool)"
    by simp
  have "plans ?p = map_of (map ?R (rev (map ?idp pool)))"
    unfolding plans_def a by (simp only: rev_map)
  also have "\<dots> = (\<lambda>k. if k = sid \<and> k \<in> fst ` set (rev (map ?idp pool)) then Some pln
                        else map_of (rev (map ?idp pool)) k)"
    by (rule map_of_replace)
  also have "\<dots> = (plans pool)(sid \<mapsto> pln)"
    using True by (auto simp: plans_def fun_eq_iff image_iff)
  finally have "plans ?p = (plans pool)(sid \<mapsto> pln)" .
  moreover from assms True have "spec_registerKey now sid pln pool = Inr ?p"
    by (auto simp: spec_registerKey_def)
  ultimately show ?thesis by blast
next
  case False
  with assms show ?thesis
    by (auto simp: spec_registerKey_def plans_def)
qed

lemma spec_deleteKey_plans:
  "plans (filter (\<lambda>k. subscriptionId k \<noteq> sid) pool) = (plans pool)(sid := None)"
proof -
  let ?idp = "\<lambda>entry. (subscriptionId entry, plan entry)"
  have a: "map ?idp (filter (\<lambda>k. subscriptionId k \<noteq> sid) pool) =
        filter (\<lambda>e. fst e \<noteq> sid) (map ?idp pool)"
    by (induction pool) auto
  have "plans (filter (\<lambda>k. subscriptionId k \<noteq> sid) pool) =
        map_of (filter (\<lambda>e. fst e \<noteq> sid) (rev (map ?idp pool)))"
    unfolding plans_def a by (simp only: rev_filter)
  also have "\<dots> = (map_of (rev (map ?idp pool)))(sid := None)"
    by (rule map_of_remove)
  finally show ?thesis by (simp only: plans_def)
qed

lemma spec_keyManager_simps [simp]:
  "getAllKeysStatus (spec_keyManager now) = Inr"
  "registerKey (spec_keyManager now) = spec_registerKey now"
  "deleteKey (spec_keyManager now) = spec_deleteKey"
  by (simp_all add: spec_keyManager_def)

lemma register_loop_spec:
  assumes "\<forall>e\<in>set entries. snd e = ''pro'' \<or> snd e = ''ultimate''"
    and "distinct (map fst entries)"
    and "\<forall>e\<in>set entries. plans pool (fst e) = map_of eM (fst e)"
  shows "plans (fst (register_loop (spec_keyManager now) eM entries (pool, tr))) =
           plans pool ++ map_of entries"
  using assms
proof (induction entries arbitrary: pool tr)
  case Nil
  show ?case by simp
next
  case (Cons e entries)
  obtain sid pln where e: "e = (sid, pln)" by (cases e)
  from Cons.prems e have valid: "pln = ''pro'' \<or> pln = ''ultimate''"
    and rest_valid: "\<forall>e\<in>set entries. snd e = ''pro'' \<or> snd e = ''ultimate''"
    and fresh: "sid \<notin> fst ` set entries" and dist: "distinct (map fst entries)"
    and here: "plans pool sid = map_of eM sid"
    and agree: "\<forall>e\<in>set entries. plans pool (fst e) = map_of eM (fst e)"
    by auto
  from valid have ne: "pln \<noteq> []" by auto
  from fresh have nodom: "map_of entries sid = None"
    by (simp add: map_of_eq_None_iff)
  show ?case
  proof (cases "map_of eM sid = Some pln")
    case True
    with ne have step: "register_loop (spec_keyManager now) eM (e # entries) (pool, tr) =
        register_loop (spec_keyManager now) eM entries
          (pool, tr @ [Log Debug ''Watcher: key already in desired state'' sid])"
      by (simp add: e)
    have "plans pool ++ map_of entries = plans pool ++ map_of (e # entries)"
      using True here nodom by (auto simp: e fun_eq_iff map_add_def split: option.splits)
    with Cons.IH [OF rest_valid dist agree] show ?thesis by (simp only: step)
  next
    case False
    from spec_registerKey_plans [OF valid, of now sid pool] obtain pool' where
      reg: "spec_registerKey now sid pln pool = Inr pool'"
      and pl: "plans pool' = (plans pool)(sid \<mapsto> pln)"
      by blast
    from False reg have step: "register_loop (spec_keyManager now) eM (e # entries) (pool, tr) =
        register_loop (spec_keyManager now) eM entries
          (pool', tr @ [RegisterKey sid pln Returned,
                        Log Info ''Watcher: applied key from .env'' sid])"
      by (auto simp: e split: option.splits)
    have agree': "\<forall>e\<in>set entries. plans pool' (fst e) = map_of eM (fst e)"
      using agree fresh pl by (auto simp: image_iff)
    have "plans pool' ++ map_of entries = plans pool ++ map_of (e # entries)"
      using pl nodom by (auto simp: e fun_eq_iff map_add_def split: option.splits)
    with Cons.IH [OF rest_valid dist agree'] show ?thesis by (simp only: step)
  qed
qed

lemma delete_loop_spec:
  "plans (fst (delete_loop (spec_keyManager now) dM sids (pool, tr))) =
     (\<lambda>k. if k \<in> set sids \<and> map_of dM k = None then None else plans pool k)"
proof (induction sids arbitrary: pool tr)
  case Nil
  show ?case by simp
next
  case (Cons sid sids)
  show ?case
  proof (cases "map_of dM sid = None")
    case True
    then have "delete_loop (spec_keyManager now) dM (sid # sids) (pool, tr) =
        delete_loop (spec_keyManager now) dM sids
          (filter (\<lambda>k. subscriptionId k \<noteq> sid) pool,
           tr @ [DeleteKey sid Returned, Log Info ''Watcher: deleted key no longer in .env'' sid])"
      by (simp add: spec_deleteKey_def)
    then show ?thesis using True
      by (auto simp: Cons.IH spec_deleteKey_plans fun_eq_iff)
  next
    case False
    then have "delete_loop (spec_keyManager now) dM (sid # sids) (pool, tr) =
        delete_loop (spec_keyManager now) dM sids (pool, tr)"
      by auto
    then show ?thesis using False
      by (auto simp: Cons.IH fun_eq_iff)
  qed
qed

lemma desiredMap_of_props:
  "distinct (map fst (desiredMap_of J R envVars d))"
  "e \<in> set (desiredMap_of J R envVars d) \<Longrightarrow> snd e = ''pro'' \<or> snd e = ''ultimate''"
  "e \<in> set (desiredMap_of J R envVars d) \<Longrightarrow>
     map_of (desiredMap_of J R envVars d) (fst e) = Some (snd e)"
proof -
  show d: "distinct (map fst (desiredMap_of J R envVars d))"
    by (simp add: desiredMap_of_def Map_of_entries_props)
  show "snd e = ''pro'' \<or> snd e = ''ultimate''" if "e \<in> set (desiredMap_of J R envVars d)"
    using that Map_of_entries_props(4) [of "parseKeysFromEnv J R envVars d"]
      parseKeysFromEnv_plans [of e J R envVars d]
    by (auto simp: desiredMap_of_def)
  show "map_of (desiredMap_of J R envVars d) (fst e) = Some (snd e)"
    if "e \<in> set (desiredMap_of J R envVars d)"
    using that d by (metis map_of_eq_Some_iff prod.collapse)
qed

lemma existingMap_of_props:
  "map_of (existingMap_of pool) = plans pool"
  "set (map fst (existingMap_of pool)) = dom (plans pool)"
  by (simp_all add: existingMap_of_def Map_of_entries_props plans_def dom_map_of_conv_image_fst)

lemma performSync_unfold:
  "getAllKeysStatus km pool = Inr existing \<Longrightarrow>
   performSync km J R envVars d pool =
     Inr (delete_loop km (desiredMap_of J R envVars d) (map fst (existingMap_of existing))
            (register_loop km (existingMap_of existing) (desiredMap_of J R envVars d) (pool, [])))"
  by (simp add: performSync_def desiredMap_of_def existingMap_of_def Let_def)

lemma performSync_calls:
  assumes "getAllKeysStatus km pool = Inr existing"
  shows "\<exists>pool' tr.
           performSync km J R envVars d pool = Inr (pool', tr) \<and>
           register_calls tr =
             filter (\<lambda>e. map_of (existingMap_of existing) (fst e) \<noteq> Some (snd e))
               (desiredMap_of J R envVars d) \<and>
           delete_calls tr =
             filter (\<lambda>sid. map_of (desiredMap_of J R envVars d) sid = None)
               (map fst (existingMap_of existing))"
proof -
  let ?dM = "desiredMap_of J R envVars d"
  let ?eM = "existingMap_of existing"
  obtain p1 t1 where rl: "register_loop km ?eM ?dM (pool, []) = (p1, t1)"
    by (cases "register_loop km ?eM ?dM (pool, [])")
  obtain p2 t2 where dl: "delete_loop km ?dM (map fst ?eM) (p1, t1) = (p2, t2)"
    by (cases "delete_loop km ?dM (map fst ?eM) (p1, t1)")
  from register_loop_calls [of km ?eM ?dM pool "[]"] rl have
    r1: "register_calls t1 =
           filter (\<lambda>e. \<not> (map_of ?eM (fst e) = Some (snd e) \<and> snd e \<noteq> [])) ?dM"
    and d1: "delete_calls t1 = []"
    by simp_all
  have "filter (\<lambda>e. \<not> (map_of ?eM (fst e) = Some (snd e) \<and> snd e \<noteq> [])) ?dM =
        filter (\<lambda>e. map_of ?eM (fst e) \<noteq> Some (snd e)) ?dM"
  proof (rule filter_cong [OF refl])
    fix e assume "e \<in> set ?dM"
    from desiredMap_of_props(2) [OF this] have "snd e \<noteq> []" by auto
    then show "(\<not> (map_of ?eM (fst e) = Some (snd e) \<and> snd e \<noteq> [])) =
               (map_of ?eM (fst e) \<noteq> Some (snd e))"
      by simp
  qed
  with r1 have r1': "register_calls t1 = filter (\<lambda>e. map_of ?eM (fst e) \<noteq> Some (snd e)) ?dM"
    by simp
  from delete_loop_calls [of km ?dM "map fst ?eM" p1 t1] dl r1' d1 have
    "register_calls t2 = filter (\<lambda>e. map_of ?eM (fst e) \<noteq> Some (snd e)) ?dM"
    "delete_calls t2 = filter (\<lambda>sid. map_of ?dM sid = None) (map fst ?eM)"
    by simp_all
  moreover from performSync_unfold [OF assms, of J R envVars d] rl dl
  have "performSync km J R envVars d pool = Inr (p2, t2)" by simp
  ultimately show ?thesis by blast
qed

lemma performSync_spec_plans:
  "\<exists>pool1 tr1.
     performSync (spec_keyManager now) J R envVars d pool = Inr (pool1, tr1) \<and>
     plans pool1 = map_of (desiredMap_of J R envVars d)"
proof -
  let ?km = "spec_keyManager now"
  let ?dM = "desiredMap_of J R envVars d"
  let ?eM = "existingMap_of pool"
  obtain p1 t1 where rl: "register_loop ?km ?eM ?dM (pool, []) = (p1, t1)"
    by (cases "register_loop ?km ?eM ?dM (pool, [])")
  obtain p2 t2 where dl: "delete_loop ?km ?dM (map fst ?eM) (p1, t1) = (p2, t2)"
    by (cases "delete_loop ?km ?dM (map fst ?eM) (p1, t1)")
  have "plans (fst (register_loop ?km ?eM ?dM (pool, []))) = plans pool ++ map_of ?dM"
    by (rule register_loop_spec)
       (auto simp: existingMap_of_props desiredMap_of_props(1) dest: desiredMap_of_props(2))
  with rl have p1: "plans p1 = plans pool ++ map_of ?dM" by simp
  from delete_loop_spec [of now ?dM "map fst ?eM" p1 t1] dl
  have "plans p2 = (\<lambda>k. if k \<in> set (map fst ?eM) \<and> map_of ?dM k = None then None else plans p1 k)"
    by simp
  then have "plans p2 = map_of ?dM"
    unfolding p1 existingMap_of_props
    by (auto simp: fun_eq_iff map_add_def split: option.splits)
  moreover have "performSync ?km J R envVars d pool = Inr (p2, t2)"
    using performSync_unfold [of ?km pool pool J R envVars d] rl dl by simp
  ultimately show ?thesis by blast
qed

subsection \<open>C4: reconciliation calls only what is needed, and converges\<close>

text \<open>
  C4, first on any key manager: a pass of \<open>performSync\<close> calls \<open>registerKey\<close> for exactly
  the desired entries whose plan the existing state does not hold for that id (another
  plan, or no key), and \<open>deleteKey\<close> for exactly the existing ids that the desired state
  does not have. Then on the key manager of the specification: after a first pass, a
  second pass with the same env variables calls neither \<open>registerKey\<close> nor \<open>deleteKey\<close>.
\<close>

theorem sync_converges:
  "(getAllKeysStatus km pool = Inr existing \<longrightarrow>
      (\<exists>pool' tr.
         performSync km J R envVars d pool = Inr (pool', tr) \<and>
         register_calls tr =
           filter (\<lambda>e. map_of (existingMap_of existing) (fst e) \<noteq> Some (snd e))
             (desiredMap_of J R envVars d) \<and>
         delete_calls tr =
           filter (\<lambda>sid. map_of (desiredMap_of J R envVars d) sid = None)
             (map fst (existingMap_of existing)))) \<and>
   (\<exists>pool1 tr1 pool2 tr2.
      performSync (spec_keyManager now) J R envVars d pool0 = Inr (pool1, tr1) \<and>
      performSync (spec_keyManager now') J R envVars d pool1 = Inr (pool2, tr2) \<and>
      register_calls tr2 = [] \<and> delete_calls tr2 = [])"
proof -
  let ?dM = "desiredMap_of J R envVars d"
  from performSync_spec_plans [of now J R envVars d pool0] obtain pool1 tr1 where
    run1: "performSync (spec_keyManager now) J R envVars d pool0 = Inr (pool1, tr1)"
    and pl: "plans pool1 = map_of ?dM"
    by blast
  have g: "getAllKeysStatus (spec_keyManager now') pool1 = Inr pool1" by simp
  from performSync_calls [OF g, of J R envVars d] obtain pool2 tr2 where
    run2: "performSync (spec_keyManager now') J R envVars d pool1 = Inr (pool2, tr2)"
    and r2: "register_calls tr2 =
               filter (\<lambda>e. map_of (existingMap_of pool1) (fst e) \<noteq> Some (snd e)) ?dM"
    and d2: "delete_calls tr2 =
               filter (\<lambda>sid. map_of ?dM sid = None) (map fst (existingMap_of pool1))"
    by blast
  have "register_calls tr2 = []"
    unfolding r2 existingMap_of_props pl filter_empty_conv
    using desiredMap_of_props(3) by auto
  moreover have "delete_calls tr2 = []"
    unfolding d2 filter_empty_conv
    using existingMap_of_props(2) [of pool1] pl by auto
  ultimately have second: "\<exists>pool1 tr1 pool2 tr2.
      performSync (spec_keyManager now) J R envVars d pool0 = Inr (pool1, tr1) \<and>
      performSync (spec_keyManager now') J R envVars d pool1 = Inr (pool2, tr2) \<and>
      register_calls tr2 = [] \<and> delete_calls tr2 = []"
    using run1 run2 by blast
  from performSync_calls [of km pool existing J R envVars d] second show ?thesis by blast
qed

text \<open>
  C4 at the example: the first pass registers \<open>k1\<close> on \<open>pro\<close> and deletes \<open>old\<close>, the
  second does nothing.
\<close>

theorem sync_converges_witness:
  "getAllKeysStatus (spec_keyManager 0) example_pool = Inr example_pool \<and>
   (\<exists>pool' tr.
      performSync (spec_keyManager 0) (\<lambda>s. None) (\<lambda>d p. None) (Some example_env) ''.''
        example_pool = Inr (pool', tr) \<and>
      register_calls tr = [(''k1'', ''pro'')] \<and> delete_calls tr = [''old'']) \<and>
   (\<exists>pool1 tr1 pool2 tr2.
      performSync (spec_keyManager 0) (\<lambda>s. None) (\<lambda>d p. None) (Some example_env) ''.''
        example_pool = Inr (pool1, tr1) \<and>
      performSync (spec_keyManager 1) (\<lambda>s. None) (\<lambda>d p. None) (Some example_env) ''.''
        pool1 = Inr (pool2, tr2) \<and>
      register_calls tr2 = [] \<and> delete_calls tr2 = [])"
proof -
  have g: "getAllKeysStatus (spec_keyManager 0) example_pool = Inr example_pool"
    by simp
  have dm: "desiredMap_of (\<lambda>s. None) (\<lambda>d p. None) (Some example_env) ''.'' = [(''k1'', ''pro'')]"
    by (simp add: desiredMap_of_def Map_of_entries_def parse_defs)
  have em: "existingMap_of example_pool = [(''k1'', ''ultimate''), (''old'', ''pro'')]"
    by (simp add: existingMap_of_def Map_of_entries_def example_pool_def example_key_def)
  from sync_converges
         [of "spec_keyManager 0" example_pool example_pool "\<lambda>s. None" "\<lambda>d p. None"
            "Some example_env" "''.''" 0 example_pool 1]
       g
  show ?thesis unfolding dm em by simp
qed


end
